theory Spec2Isabelle
  imports Main "HOL-Library.Sublist"
begin

section \<open>Python values and the operations the client applies to them\<close>

text \<open>
  The client works on whatever \<^verbatim>\<open>response.json()\<close> returns, so a value is a decoded JSON
  document: \<^verbatim>\<open>None\<close>, a bool, an int, a str, a list, or a dict with string keys (kept
  as an association list in insertion order, looked up with \<open>map_of\<close>). JSON numbers
  with a fraction or an exponent (Python floats) are outside the model. A str is the
  sequence of its characters.
\<close>

datatype pyval =
    PNone
  | PBool bool
  | PInt int
  | PStr string
  | PList "pyval list"
  | PDict "(string \<times> pyval) list"

text \<open>The exceptions the client's own code can raise, none of which it catches.\<close>

datatype error =
    KeyError pyval
  | IndexError
  | TypeError
  | AttributeError

text \<open>Truth value of an object, as \<^verbatim>\<open>if x\<close>, \<^verbatim>\<open>x and y\<close> and \<^verbatim>\<open>not x\<close> test it.\<close>

fun truthy :: "pyval \<Rightarrow> bool" where
  "truthy PNone = False"
| "truthy (PBool b) = b"
| "truthy (PInt n) = (n \<noteq> 0)"
| "truthy (PStr s) = (s \<noteq> [])"
| "truthy (PList xs) = (xs \<noteq> [])"
| "truthy (PDict kvs) = (kvs \<noteq> [])"

text \<open>\<^verbatim>\<open>d.get(k, default)\<close>: only a dict has the method.\<close>

fun py_get :: "pyval \<Rightarrow> string \<Rightarrow> pyval \<Rightarrow> error + pyval" where
  "py_get (PDict kvs) k dflt = Inr (case map_of kvs k of None \<Rightarrow> dflt | Some v \<Rightarrow> v)"
| "py_get _ k dflt = Inl AttributeError"

text \<open>\<^verbatim>\<open>d[k]\<close> with a string key.\<close>

fun py_item :: "pyval \<Rightarrow> string \<Rightarrow> error + pyval" where
  "py_item (PDict kvs) k = (case map_of kvs k of None \<Rightarrow> Inl (KeyError (PStr k)) | Some v \<Rightarrow> Inr v)"
| "py_item (PList xs) k = Inl TypeError"
| "py_item (PStr s) k = Inl TypeError"
| "py_item _ k = Inl TypeError"

text \<open>\<^verbatim>\<open>x[0]\<close>: the first element of a list, the first character of a str, the key 0 of a dict.\<close>

fun py_first :: "pyval \<Rightarrow> error + pyval" where
  "py_first (PList []) = Inl IndexError"
| "py_first (PList (x # xs)) = Inr x"
| "py_first (PStr []) = Inl IndexError"
| "py_first (PStr (c # cs)) = Inr (PStr [c])"
| "py_first (PDict kvs) = Inl (KeyError (PInt 0))"
| "py_first _ = Inl TypeError"

text \<open>\<^verbatim>\<open>len(x)\<close>.\<close>

fun py_len :: "pyval \<Rightarrow> error + nat" where
  "py_len (PList xs) = Inr (length xs)"
| "py_len (PStr s) = Inr (length s)"
| "py_len (PDict kvs) = Inr (length kvs)"
| "py_len _ = Inl TypeError"

text \<open>The elements a \<^verbatim>\<open>for\<close> clause draws from an object.\<close>

fun py_iter :: "pyval \<Rightarrow> error + pyval list" where
  "py_iter (PList xs) = Inr xs"
| "py_iter (PStr s) = Inr (map (\<lambda>c. PStr [c]) s)"
| "py_iter (PDict kvs) = Inr (map (\<lambda>(k, v). PStr k) kvs)"
| "py_iter _ = Inl TypeError"

section \<open>The record normalizer: \<^verbatim>\<open>Product.from_dict\<close>\<close>

text \<open>
  The dataclass does not check its annotations, so every field holds the value the
  payload had. The field \<^verbatim>\<open>id\<close> is written \<open>id'\<close>.
\<close>

record product =
  id' :: pyval
  title :: pyval
  handle :: pyval
  vendor :: pyval
  product_type :: pyval
  status :: pyval
  price :: pyval
  inventory_quantity :: pyval

text \<open>
  The first statement of \<^verbatim>\<open>from_dict\<close>: the pair (price, inventory_quantity), both
  \<^verbatim>\<open>None\<close> unless \<^verbatim>\<open>data.get('variants') and len(data['variants']) > 0\<close>.
\<close>

definition first_variant_fields :: "pyval \<Rightarrow> error + (pyval \<times> pyval)" where
  "first_variant_fields data =
     (case py_get data ''variants'' PNone of
        Inl e \<Rightarrow> Inl e
      | Inr vs \<Rightarrow>
          if \<not> truthy vs then Inr (PNone, PNone)
          else (case py_item data ''variants'' of
                  Inl e \<Rightarrow> Inl e
                | Inr vs' \<Rightarrow>
                    (case py_len vs' of
                       Inl e \<Rightarrow> Inl e
                     | Inr n \<Rightarrow>
                         if \<not> n > 0 then Inr (PNone, PNone)
                         else (case py_item data ''variants'' of
                                 Inl e \<Rightarrow> Inl e
                               | Inr vs'' \<Rightarrow>
                                   (case py_first vs'' of
                                      Inl e \<Rightarrow> Inl e
                                    | Inr first_variant \<Rightarrow>
                                        (case py_get first_variant ''price'' PNone of
                                           Inl e \<Rightarrow> Inl e
                                         | Inr p \<Rightarrow>
                                             (case py_get first_variant ''inventory_quantity'' PNone of
                                                Inl e \<Rightarrow> Inl e
                                              | Inr q \<Rightarrow> Inr (p, q))))))))"

text \<open>The constructor call: the six subscripts are evaluated in the order written.\<close>

definition from_dict :: "pyval \<Rightarrow> error + product" where
  "from_dict data =
     (case first_variant_fields data of
        Inl e \<Rightarrow> Inl e
      | Inr (p, q) \<Rightarrow>
     (case py_item data ''id'' of Inl e \<Rightarrow> Inl e | Inr v1 \<Rightarrow>
     (case py_item data ''title'' of Inl e \<Rightarrow> Inl e | Inr v2 \<Rightarrow>
     (case py_item data ''handle'' of Inl e \<Rightarrow> Inl e | Inr v3 \<Rightarrow>
     (case py_item data ''vendor'' of Inl e \<Rightarrow> Inl e | Inr v4 \<Rightarrow>
     (case py_item data ''product_type'' of Inl e \<Rightarrow> Inl e | Inr v5 \<Rightarrow>
     (case py_item data ''status'' of Inl e \<Rightarrow> Inl e | Inr v6 \<Rightarrow>
        Inr \<lparr>id' = v1, title = v2, handle = v3, vendor = v4, product_type = v5,
             status = v6, price = p, inventory_quantity = q\<rparr>)))))))"

text \<open>
  The list comprehension \<^verbatim>\<open>[Product.from_dict(product) for product in products_data]\<close>
  over the elements already drawn: the first exception ends it.
\<close>

fun from_dict_all :: "pyval list \<Rightarrow> error + product list" where
  "from_dict_all [] = Inr []"
| "from_dict_all (d # ds) =
     (case from_dict d of
        Inl e \<Rightarrow> Inl e
      | Inr p \<Rightarrow> (case from_dict_all ds of Inl e \<Rightarrow> Inl e | Inr ps \<Rightarrow> Inr (p # ps)))"

definition required_fields :: "string list" where
  "required_fields = [''id'', ''title'', ''handle'', ''vendor'', ''product_type'', ''status'']"

section \<open>Strings: \<^verbatim>\<open>in\<close>, \<^verbatim>\<open>split\<close> and indexing\<close>

text \<open>\<^verbatim>\<open>sub in s\<close> for two strs: \<open>sub\<close> occurs in \<open>s\<close> as a contiguous run.\<close>

fun contains :: "string \<Rightarrow> string \<Rightarrow> bool" where
  "contains sub [] = (sub = [])"
| "contains sub (c # cs) = (prefix sub (c # cs) \<or> contains sub cs)"

text \<open>
  \<^verbatim>\<open>s.split(sep)\<close>: the pieces between the non-overlapping occurrences of \<open>sep\<close>, found
  from the left; there is always at least one piece. Every separator the client passes
  is a non-empty constant (Python raises ValueError on an empty one; here an empty
  separator splits nothing).
\<close>

function py_split :: "string \<Rightarrow> string \<Rightarrow> string list" where
  "py_split sep [] = [[]]"
| "py_split sep (c # cs) =
     (if sep \<noteq> [] \<and> prefix sep (c # cs)
      then [] # py_split sep (drop (length sep) (c # cs))
      else (case py_split sep cs of [] \<Rightarrow> [[c]] | p # ps \<Rightarrow> (c # p) # ps))"
  by pat_completeness auto
termination
  by (relation "measure (\<lambda>(sep, s). length s)") (auto simp: Suc_le_eq)

text \<open>\<^verbatim>\<open>xs[n]\<close> for \<open>n \<ge> 0\<close>.\<close>

fun py_nth :: "'a list \<Rightarrow> nat \<Rightarrow> error + 'a" where
  "py_nth [] n = Inl IndexError"
| "py_nth (x # xs) 0 = Inr x"
| "py_nth (x # xs) (Suc n) = py_nth xs n"

definition dquote :: char where
  "dquote = CHR 0x22"

text \<open>The marker \<^verbatim>\<open>rel="next"\<close>.\<close>

definition rel_next :: string where
  "rel_next = ''rel='' @ [dquote] @ ''next'' @ [dquote]"

text \<open>\<^verbatim>\<open>link.split('page_info=')[1].split('&')[0].split('>')[0]\<close>\<close>

definition link_page_info :: "string \<Rightarrow> error + string" where
  "link_page_info link =
     (case py_nth (py_split ''page_info='' link) 1 of
        Inl e \<Rightarrow> Inl e
      | Inr a \<Rightarrow>
          (case py_nth (py_split ''&'' a) 0 of
             Inl e \<Rightarrow> Inl e
           | Inr b \<Rightarrow> py_nth (py_split ''>'' b) 0))"

text \<open>
  The \<^verbatim>\<open>for link in link_header.split(',')\<close> loop: the first piece that contains the
  marker sets \<^verbatim>\<open>page_info\<close> and ends the scan; with no such piece the variable keeps
  its value.
\<close>

fun scan_links :: "string list \<Rightarrow> pyval \<Rightarrow> error + pyval" where
  "scan_links [] page_info = Inr page_info"
| "scan_links (link # links) page_info =
     (if contains rel_next link
      then (case link_page_info link of Inl e \<Rightarrow> Inl e | Inr t \<Rightarrow> Inr (PStr t))
      else scan_links links page_info)"

section \<open>The client and the remote store\<close>

record shopify_api =
  shop_name :: string
  access_token :: string
  base_url :: string
  headers :: "(string \<times> string) list"

definition init :: "string \<Rightarrow> string \<Rightarrow> shopify_api" where
  "init shop token =
     \<lparr>shop_name = shop, access_token = token,
      base_url = ''https://'' @ shop @ ''.myshopify.com'',
      headers = [(''X-Shopify-Access-Token'', token), (''Content-Type'', ''application/json'')]\<rparr>"

text \<open>What one call of \<^verbatim>\<open>requests.get\<close> sends.\<close>

record request =
  url :: string
  req_headers :: "(string \<times> string) list"
  params :: "(string \<times> pyval) list"

text \<open>
  What the three library calls of a \<^verbatim>\<open>try\<close> block (\<^verbatim>\<open>requests.get\<close>,
  \<^verbatim>\<open>raise_for_status\<close>, \<^verbatim>\<open>response.json\<close>) come to. \<open>Failed msg\<close>: one of them raised
  a \<^verbatim>\<open>RequestException\<close> whose text is \<open>msg\<close> (no connection, a timeout, an error status,
  a body that is not JSON). \<open>Delivered data link\<close>: the decoded body and the value of
  \<^verbatim>\<open>response.headers.get('Link')\<close>.
\<close>

datatype response =
    Failed string
  | Delivered pyval "string option"

text \<open>
  What a caller can observe of an operation: the value returned or the exception
  raised, the requests sent, and the lines printed.
\<close>

record 'r outcome =
  result :: 'r
  requests :: "request list"
  printed :: "string list"

definition products_url :: "shopify_api \<Rightarrow> string" where
  "products_url api = base_url api @ ''/admin/api/2023-10/products.json''"

text \<open>The statements of the two single-request \<^verbatim>\<open>try\<close> blocks after the request succeeded.\<close>

definition parse_products :: "pyval \<Rightarrow> error + product list" where
  "parse_products data =
     (case py_get data ''products'' (PList []) of
        Inl e \<Rightarrow> Inl e
      | Inr products_data \<Rightarrow>
          (case py_iter products_data of
             Inl e \<Rightarrow> Inl e
           | Inr ds \<Rightarrow> from_dict_all ds))"

definition get_products :: "shopify_api \<Rightarrow> int \<Rightarrow> string \<Rightarrow> response \<Rightarrow> (error + product list) outcome" where
  "get_products api limit status' resp =
     (let req = \<lparr>url = products_url api, req_headers = headers api,
                  params = [(''limit'', PInt (min limit 250)), (''status'', PStr status')]\<rparr>
      in case resp of
           Failed msg \<Rightarrow>
             \<lparr>result = Inr [], requests = [req],
              printed = [''Error fetching products: '' @ msg]\<rparr>
         | Delivered data link \<Rightarrow>
             \<lparr>result = parse_products data, requests = [req], printed = []\<rparr>)"

definition search_products :: "shopify_api \<Rightarrow> string \<Rightarrow> int \<Rightarrow> response \<Rightarrow> (error + product list) outcome" where
  "search_products api query limit resp =
     (let req = \<lparr>url = products_url api, req_headers = headers api,
                  params = [(''limit'', PInt (min limit 250)), (''title'', PStr query)]\<rparr>
      in case resp of
           Failed msg \<Rightarrow>
             \<lparr>result = Inr [], requests = [req],
              printed = [''Error searching products: '' @ msg]\<rparr>
         | Delivered data link \<Rightarrow>
             \<lparr>result = parse_products data, requests = [req], printed = []\<rparr>)"

subsection \<open>\<^verbatim>\<open>get_all_products\<close>\<close>

text \<open>The variables of the loop, and the lines printed so far.\<close>

record loop_vars =
  all_products :: "product list"
  page_info :: pyval
  console :: "string list"

datatype control = Break | Continue

text \<open>The request at the head of an iteration.\<close>

definition page_request :: "shopify_api \<Rightarrow> string \<Rightarrow> pyval \<Rightarrow> request" where
  "page_request api status' pi =
     \<lparr>url = products_url api, req_headers = headers api,
      params = [(''limit'', PInt 250), (''status'', PStr status')]
               @ (if truthy pi then [(''page_info'', pi)] else [])\<rparr>"

text \<open>
  One pass through the \<^verbatim>\<open>try\<close> statement, given what the request came to: an exception
  that is not caught, or how the pass ends and the variables after it.
\<close>

definition loop_body :: "response \<Rightarrow> loop_vars \<Rightarrow> error + (control \<times> loop_vars)" where
  "loop_body resp vars =
     (case resp of
        Failed msg \<Rightarrow>
          Inr (Break, vars\<lparr>console := console vars @ [''Error fetching products: '' @ msg]\<rparr>)
      | Delivered data link \<Rightarrow>
          (case py_get data ''products'' (PList []) of
             Inl e \<Rightarrow> Inl e
           | Inr products_data \<Rightarrow>
               if \<not> truthy products_data then Inr (Break, vars)
               else (case py_iter products_data of
                       Inl e \<Rightarrow> Inl e
                     | Inr ds \<Rightarrow>
                         (case from_dict_all ds of
                            Inl e \<Rightarrow> Inl e
                          | Inr products \<Rightarrow>
                              (let vars' = vars\<lparr>all_products := all_products vars @ products\<rparr>
                               in case link of
                                    None \<Rightarrow> Inr (Break, vars')
                                  | Some link_header \<Rightarrow>
                                      if link_header \<noteq> [] \<and> contains rel_next link_header
                                      then (case scan_links (py_split '','' link_header) (page_info vars') of
                                              Inl e \<Rightarrow> Inl e
                                            | Inr pi \<Rightarrow> Inr (Continue, vars'\<lparr>page_info := pi\<rparr>))
                                      else Inr (Break, vars'))))))"

text \<open>
  The \<^verbatim>\<open>while True\<close> loop against the responses the remote delivers, one per request in
  the order given. The loop has no bound of its own: when it asks for more than was
  delivered it is still waiting, and the result is \<open>None\<close>.
\<close>

fun fetch_loop ::
  "shopify_api \<Rightarrow> string \<Rightarrow> loop_vars \<Rightarrow> request list \<Rightarrow> response list
     \<Rightarrow> (error + product list) option outcome" where
  "fetch_loop api status' vars reqs [] =
     \<lparr>result = None, requests = reqs @ [page_request api status' (page_info vars)],
      printed = console vars\<rparr>"
| "fetch_loop api status' vars reqs (r # rs) =
     (let reqs' = reqs @ [page_request api status' (page_info vars)]
      in case loop_body r vars of
           Inl e \<Rightarrow> \<lparr>result = Some (Inl e), requests = reqs', printed = console vars\<rparr>
         | Inr (Break, vars') \<Rightarrow>
             \<lparr>result = Some (Inr (all_products vars')), requests = reqs', printed = console vars'\<rparr>
         | Inr (Continue, vars') \<Rightarrow> fetch_loop api status' vars' reqs' rs)"

definition get_all_products ::
  "shopify_api \<Rightarrow> string \<Rightarrow> response list \<Rightarrow> (error + product list) option outcome" where
  "get_all_products api status' rs =
     fetch_loop api status' \<lparr>all_products = [], page_info = PNone, console = []\<rparr> [] rs"

section \<open>Pages, markers and what the properties speak about\<close>

text \<open>\<open>ps\<close> are the normalized entries of \<open>es\<close>, one for one and in order.\<close>

definition normalizes_to :: "pyval list \<Rightarrow> product list \<Rightarrow> bool" where
  "normalizes_to es ps = list_all2 (\<lambda>e p. from_dict e = Inr p) es ps"

text \<open>
  A successful page with entries: the body is an object whose \<^verbatim>\<open>products\<close> member is a
  non-empty list, and \<open>ps\<close> are its normalized entries.
\<close>

definition full_page :: "response \<Rightarrow> product list \<Rightarrow> bool" where
  "full_page r ps =
     (case r of
        Delivered (PDict body) link \<Rightarrow>
          (case map_of body ''products'' of
             Some (PList es) \<Rightarrow> es \<noteq> [] \<and> normalizes_to es ps
           | _ \<Rightarrow> False)
      | _ \<Rightarrow> False)"

text \<open>A successful page without entries: \<^verbatim>\<open>products\<close> is absent or is an empty list.\<close>

definition empty_page :: "response \<Rightarrow> bool" where
  "empty_page r =
     (case r of
        Delivered (PDict body) link \<Rightarrow>
          (case map_of body ''products'' of None \<Rightarrow> True | Some v \<Rightarrow> v = PList [])
      | _ \<Rightarrow> False)"

text \<open>The response carries a \<^verbatim>\<open>Link\<close> header in which \<^verbatim>\<open>rel="next"\<close> occurs.\<close>

definition has_next :: "response \<Rightarrow> bool" where
  "has_next r = (case r of Delivered d (Some h) \<Rightarrow> contains rel_next h | _ \<Rightarrow> False)"

text \<open>The first comma-separated piece of a header that contains \<^verbatim>\<open>rel="next"\<close>.\<close>

definition next_segment :: "string \<Rightarrow> string option" where
  "next_segment h = find (contains rel_next) (py_split '','' h)"

text \<open>The response carries a marker whose piece of the header holds \<^verbatim>\<open>page_info=\<close>.\<close>

definition next_has_token :: "response \<Rightarrow> bool" where
  "next_has_token r =
     (case r of
        Delivered d (Some h) \<Rightarrow>
          (case next_segment h of Some l \<Rightarrow> contains ''page_info='' l | None \<Rightarrow> False)
      | _ \<Rightarrow> False)"

text \<open>
  The three ways the loop is meant to end: a failed request, a page without entries, a
  successful response without the marker.
\<close>

definition is_failed :: "response \<Rightarrow> bool" where
  "is_failed r = (case r of Failed msg \<Rightarrow> True | _ \<Rightarrow> False)"

definition ends_pagination :: "response \<Rightarrow> bool" where
  "ends_pagination r = (is_failed r \<or> empty_page r \<or> \<not> has_next r)"

text \<open>The value of the \<^verbatim>\<open>limit\<close> parameter of a request.\<close>

definition limit_of :: "request \<Rightarrow> pyval option" where
  "limit_of q = map_of (params q) ''limit''"



subsection \<open>The continuation token as the interface describes it\<close>

text \<open>
  The interface description reads a directive as a URL in angle brackets followed by its
  attributes, and the token as the value of the query parameter named \<^verbatim>\<open>page_info\<close> of
  that URL. These three definitions follow that description, not the client's code.
\<close>

definition spec_directive_url :: "string \<Rightarrow> string" where
  "spec_directive_url directive =
     takeWhile (\<lambda>c. c \<noteq> CHR ''>'') (drop 1 (dropWhile (\<lambda>c. c \<noteq> CHR ''<'') directive))"

definition spec_query_param :: "string \<Rightarrow> string \<Rightarrow> string option" where
  "spec_query_param name u =
     map_of (map (\<lambda>kv. (takeWhile (\<lambda>c. c \<noteq> CHR ''='') kv, drop 1 (dropWhile (\<lambda>c. c \<noteq> CHR ''='') kv)))
                 (py_split ''&'' (drop 1 (dropWhile (\<lambda>c. c \<noteq> CHR ''?'') u))))
            name"

definition spec_continuation_token :: "string \<Rightarrow> string option" where
  "spec_continuation_token directive = spec_query_param ''page_info'' (spec_directive_url directive)"

subsection \<open>Sample data\<close>

definition example_entry :: pyval where
  "example_entry =
     PDict [(''id'', PInt 1), (''title'', PStr ''Mug''), (''handle'', PStr ''mug''),
            (''vendor'', PStr ''Acme''), (''product_type'', PStr ''Kitchen''),
            (''status'', PStr ''active''),
            (''variants'', PList [PDict [(''price'', PStr ''9.99''), (''inventory_quantity'', PInt 4)]])]"

definition example_product :: product where
  "example_product =
     \<lparr>id' = PInt 1, title = PStr ''Mug'', handle = PStr ''mug'', vendor = PStr ''Acme'',
      product_type = PStr ''Kitchen'', status = PStr ''active'', price = PStr ''9.99'',
      inventory_quantity = PInt 4\<rparr>"

definition example_link :: string where
  "example_link =
     ''<https://shop.myshopify.com/admin/api/2023-10/products.json?limit=250&page_info=abc123>; rel=''
     @ [dquote] @ ''next'' @ [dquote]"


text \<open>A marker whose URL has \<^verbatim>\<open>page_info\<close> first and a comma in a later parameter.\<close>

definition comma_link :: string where
  "comma_link =
     ''<https://shop.myshopify.com/admin/api/2023-10/products.json?page_info=abc&fields=id,title>; rel=''
     @ [dquote] @ ''next'' @ [dquote]"

definition example_page :: "pyval list \<Rightarrow> string option \<Rightarrow> response" where
  "example_page es link = Delivered (PDict [(''products'', PList es)]) link"

definition example_api :: shopify_api where
  "example_api = init ''shop'' ''token''"

text \<open>An entry without \<^verbatim>\<open>id\<close> and without variants.\<close>

definition headless_entry :: "(string \<times> pyval) list" where
  "headless_entry =
     [(''title'', PStr ''Mug''), (''handle'', PStr ''mug''), (''vendor'', PStr ''Acme''),
      (''product_type'', PStr ''Kitchen''), (''status'', PStr ''active'')]"

section \<open>Export: writing and reading JSON\<close>

subsection \<open>Writing JSON: \<^verbatim>\<open>json.dump\<close>\<close>

text \<open>
  \<^verbatim>\<open>json.dump(obj, f, indent=2, ensure_ascii=False)\<close>: a string between double quotes,
  with \<^verbatim>\<open>"\<close>, \<^verbatim>\<open>\\<close> and the characters below U+0020 escaped and every other character as
  it is.
\<close>

definition backslash :: char where
  "backslash = CHR 0x5C"

definition hex_digit :: "nat \<Rightarrow> char" where
  "hex_digit n = (if n < 10 then char_of (48 + n) else char_of (87 + n))"

definition escape_char :: "char \<Rightarrow> string" where
  "escape_char c =
     (if c = backslash then [backslash, backslash]
      else if c = dquote then [backslash, dquote]
      else if c = CHR 0x08 then [backslash, CHR ''b'']
      else if c = CHR 0x0C then [backslash, CHR ''f'']
      else if c = CHR 0x0A then [backslash, CHR ''n'']
      else if c = CHR 0x0D then [backslash, CHR ''r'']
      else if c = CHR 0x09 then [backslash, CHR ''t'']
      else if (of_char c :: nat) < 32
      then [backslash, CHR ''u'', CHR ''0'', CHR ''0'',
            hex_digit (of_char c div 16), hex_digit (of_char c mod 16)]
      else [c])"

definition encode_str :: "string \<Rightarrow> string" where
  "encode_str s = [dquote] @ concat (map escape_char s) @ [dquote]"

text \<open>An int in decimal, as \<^verbatim>\<open>int.__repr__\<close> writes it.\<close>

fun show_nat :: "nat \<Rightarrow> string" where
  "show_nat n = (if n < 10 then [char_of (48 + n)] else show_nat (n div 10) @ [char_of (48 + n mod 10)])"

declare show_nat.simps [simp del]

definition encode_int :: "int \<Rightarrow> string" where
  "encode_int i = (if i < 0 then CHR ''-'' # show_nat (nat (- i)) else show_nat (nat i))"

text \<open>
  Lists and dicts with \<^verbatim>\<open>indent=2\<close>: every element on a line of its own, two spaces deeper
  than the bracket that closes the container; \<^verbatim>\<open>[]\<close> and \<^verbatim>\<open>{}\<close> when empty; the separators
  are \<^verbatim>\<open>,\<close> and \<^verbatim>\<open>: \<close>.
\<close>

definition newline_indent :: "nat \<Rightarrow> string" where
  "newline_indent lvl = CHR 0x0A # replicate (2 * lvl) (CHR '' '')"

fun encode :: "nat \<Rightarrow> pyval \<Rightarrow> string"
  and encode_items :: "nat \<Rightarrow> pyval list \<Rightarrow> string"
  and encode_members :: "nat \<Rightarrow> (string \<times> pyval) list \<Rightarrow> string" where
  "encode lvl PNone = ''null''"
| "encode lvl (PBool b) = (if b then ''true'' else ''false'')"
| "encode lvl (PInt i) = encode_int i"
| "encode lvl (PStr s) = encode_str s"
| "encode lvl (PList xs) =
     (if xs = [] then ''[]''
      else ''['' @ newline_indent (Suc lvl) @ encode_items (Suc lvl) xs @ newline_indent lvl @ '']'')"
| "encode lvl (PDict kvs) =
     (if kvs = [] then ''{}''
      else ''{'' @ newline_indent (Suc lvl) @ encode_members (Suc lvl) kvs @ newline_indent lvl @ ''}'')"
| "encode_items lvl [] = []"
| "encode_items lvl [x] = encode lvl x"
| "encode_items lvl (x # y # ys) =
     encode lvl x @ '','' @ newline_indent lvl @ encode_items lvl (y # ys)"
| "encode_members lvl [] = []"
| "encode_members lvl [(k, v)] = encode_str k @ '': '' @ encode lvl v"
| "encode_members lvl ((k, v) # kv # kvs) =
     encode_str k @ '': '' @ encode lvl v @ '','' @ newline_indent lvl @ encode_members lvl (kv # kvs)"

definition json_dump :: "pyval \<Rightarrow> string" where
  "json_dump v = encode 0 v"

subsection \<open>Reading JSON: \<^verbatim>\<open>json.load\<close>\<close>

text \<open>
  The reader follows the decoder of the library: white space is skipped between tokens,
  a string ends at the first unescaped \<^verbatim>\<open>"\<close> and may not hold a raw control character, a
  number is \<^verbatim>\<open>-?(0|[1-9][0-9]*)\<close>, a repeated key keeps its first place and its last
  value. Two kinds of text give no value here because their value is outside the model:
  a number with a fraction or an exponent, and a \<^verbatim>\<open>\\u\<close> escape of a character beyond ASCII.
  The scanner carries fuel, one unit per nested call; \<open>json_loads\<close> gives it the length
  of the text.
\<close>

definition is_ws :: "char \<Rightarrow> bool" where
  "is_ws c = (c = CHR '' '' \<or> c = CHR 0x09 \<or> c = CHR 0x0A \<or> c = CHR 0x0D)"

definition skip_ws :: "string \<Rightarrow> string" where
  "skip_ws s = dropWhile is_ws s"

definition is_digit :: "char \<Rightarrow> bool" where
  "is_digit c = (48 \<le> (of_char c :: nat) \<and> (of_char c :: nat) \<le> 57)"

definition digit_val :: "char \<Rightarrow> nat" where
  "digit_val c = of_char c - 48"

definition hex_val :: "char \<Rightarrow> nat option" where
  "hex_val c =
     (let n = (of_char c :: nat)
      in if 48 \<le> n \<and> n \<le> 57 then Some (n - 48)
         else if 97 \<le> n \<and> n \<le> 102 then Some (n - 87)
         else if 65 \<le> n \<and> n \<le> 70 then Some (n - 55)
         else None)"

definition unescape :: "char \<Rightarrow> char option" where
  "unescape e =
     (if e = dquote then Some dquote
      else if e = backslash then Some backslash
      else if e = CHR ''/'' then Some (CHR ''/'')
      else if e = CHR ''b'' then Some (CHR 0x08)
      else if e = CHR ''f'' then Some (CHR 0x0C)
      else if e = CHR ''n'' then Some (CHR 0x0A)
      else if e = CHR ''r'' then Some (CHR 0x0D)
      else if e = CHR ''t'' then Some (CHR 0x09)
      else None)"

fun scan_string :: "string \<Rightarrow> (string \<times> string) option" where
  "scan_string [] = None"
| "scan_string (c # cs) =
     (if c = dquote then Some ([], cs)
      else if c = backslash then
        (case cs of
           [] \<Rightarrow> None
         | e # r \<Rightarrow>
             if e = CHR ''u'' then
               (case r of
                  h1 # h2 # h3 # h4 # r' \<Rightarrow>
                    (case (hex_val h1, hex_val h2, hex_val h3, hex_val h4) of
                       (Some a, Some b, Some c', Some d) \<Rightarrow>
                         (let cp = ((a * 16 + b) * 16 + c') * 16 + d
                          in if cp < 128
                             then (case scan_string r' of
                                     None \<Rightarrow> None
                                   | Some (s, t) \<Rightarrow> Some (char_of cp # s, t))
                             else None)
                     | _ \<Rightarrow> None)
                | _ \<Rightarrow> None)
             else (case unescape e of
                     None \<Rightarrow> None
                   | Some ch \<Rightarrow>
                       (case scan_string r of
                          None \<Rightarrow> None
                        | Some (s, t) \<Rightarrow> Some (ch # s, t))))
      else if (of_char c :: nat) < 32 then None
      else (case scan_string cs of
              None \<Rightarrow> None
            | Some (s, t) \<Rightarrow> Some (c # s, t)))"

definition scan_nat :: "string \<Rightarrow> (nat \<times> string) option" where
  "scan_nat s =
     (case s of
        [] \<Rightarrow> None
      | c # cs \<Rightarrow>
          if c = CHR ''0'' then Some (0, cs)
          else if is_digit c
          then Some (foldl (\<lambda>a d. 10 * a + digit_val d) 0 (takeWhile is_digit s), dropWhile is_digit s)
          else None)"

definition scan_number :: "string \<Rightarrow> (pyval \<times> string) option" where
  "scan_number s =
     (case (case s of
              [] \<Rightarrow> None
            | c # cs \<Rightarrow>
                if c = CHR ''-''
                then (case scan_nat cs of None \<Rightarrow> None | Some (n, r) \<Rightarrow> Some (- int n, r))
                else (case scan_nat s of None \<Rightarrow> None | Some (n, r) \<Rightarrow> Some (int n, r))) of
        None \<Rightarrow> None
      | Some (i, r) \<Rightarrow>
          (case r of
             [] \<Rightarrow> Some (PInt i, r)
           | c # cs \<Rightarrow>
               if c = CHR ''.'' \<or> c = CHR ''e'' \<or> c = CHR ''E'' then None
               else Some (PInt i, r)))"

text \<open>\<^verbatim>\<open>dict(pairs)\<close>.\<close>

fun insert_pair :: "string \<times> pyval \<Rightarrow> (string \<times> pyval) list \<Rightarrow> (string \<times> pyval) list" where
  "insert_pair (k, v) [] = [(k, v)]"
| "insert_pair (k, v) ((k', v') # kvs) =
     (if k = k' then (k, v) # kvs else (k', v') # insert_pair (k, v) kvs)"

definition dict_of_pairs :: "(string \<times> pyval) list \<Rightarrow> (string \<times> pyval) list" where
  "dict_of_pairs pairs = foldl (\<lambda>d kv. insert_pair kv d) [] pairs"

fun scan_once :: "nat \<Rightarrow> string \<Rightarrow> (pyval \<times> string) option"
  and scan_array :: "nat \<Rightarrow> string \<Rightarrow> (pyval list \<times> string) option"
  and scan_object :: "nat \<Rightarrow> string \<Rightarrow> ((string \<times> pyval) list \<times> string) option" where
  "scan_once 0 s = None"
| "scan_once (Suc n) s =
     (case s of
        [] \<Rightarrow> None
      | c # cs \<Rightarrow>
          if c = dquote then
            (case scan_string cs of None \<Rightarrow> None | Some (str, r) \<Rightarrow> Some (PStr str, r))
          else if c = CHR ''{'' then
            (case skip_ws cs of
               [] \<Rightarrow> None
             | d # r \<Rightarrow>
                 if d = CHR ''}'' then Some (PDict [], r)
                 else (case scan_object n (d # r) of
                         None \<Rightarrow> None
                       | Some (pairs, r') \<Rightarrow> Some (PDict (dict_of_pairs pairs), r')))
          else if c = CHR ''['' then
            (case skip_ws cs of
               [] \<Rightarrow> None
             | d # r \<Rightarrow>
                 if d = CHR '']'' then Some (PList [], r)
                 else (case scan_array n (d # r) of
                         None \<Rightarrow> None
                       | Some (vs, r') \<Rightarrow> Some (PList vs, r')))
          else if prefix ''null'' s then Some (PNone, drop 4 s)
          else if prefix ''true'' s then Some (PBool True, drop 4 s)
          else if prefix ''false'' s then Some (PBool False, drop 5 s)
          else scan_number s)"
| "scan_array 0 s = None"
| "scan_array (Suc n) s =
     (case scan_once n s of
        None \<Rightarrow> None
      | Some (v, r) \<Rightarrow>
          (case skip_ws r of
             [] \<Rightarrow> None
           | c # r' \<Rightarrow>
               if c = CHR '']'' then Some ([v], r')
               else if c = CHR '','' then
                 (case scan_array n (skip_ws r') of
                    None \<Rightarrow> None
                  | Some (vs, r'') \<Rightarrow> Some (v # vs, r''))
               else None))"
| "scan_object 0 s = None"
| "scan_object (Suc n) s =
     (case s of
        [] \<Rightarrow> None
      | q # s' \<Rightarrow>
          if q \<noteq> dquote then None
          else (case scan_string s' of
                  None \<Rightarrow> None
                | Some (key, r) \<Rightarrow>
                    (case skip_ws r of
                       [] \<Rightarrow> None
                     | c # r1 \<Rightarrow>
                         if c \<noteq> CHR '':'' then None
                         else (case scan_once n (skip_ws r1) of
                                 None \<Rightarrow> None
                               | Some (v, r2) \<Rightarrow>
                                   (case skip_ws r2 of
                                      [] \<Rightarrow> None
                                    | d # r3 \<Rightarrow>
                                        if d = CHR ''}'' then Some ([(key, v)], r3)
                                        else if d = CHR '','' then
                                          (case scan_object n (skip_ws r3) of
                                             None \<Rightarrow> None
                                           | Some (pairs, r5) \<Rightarrow> Some ((key, v) # pairs, r5))
                                        else None)))))"

definition json_loads :: "string \<Rightarrow> pyval option" where
  "json_loads s =
     (case scan_once (length s) (skip_ws s) of
        None \<Rightarrow> None
      | Some (v, r) \<Rightarrow> if skip_ws r = [] then Some v else None)"

text \<open>
  A value is a Python value only if the keys of each of its dicts are distinct.
\<close>

fun wf_json :: "pyval \<Rightarrow> bool" where
  "wf_json (PList xs) = (\<forall>x \<in> set xs. wf_json x)"
| "wf_json (PDict kvs) = (distinct (map fst kvs) \<and> (\<forall>kv \<in> set kvs. wf_json (snd kv)))"
| "wf_json _ = True"

text \<open>What may follow a number: anything but a digit, \<^verbatim>\<open>.\<close>, \<^verbatim>\<open>e\<close> or \<^verbatim>\<open>E\<close>.\<close>

definition value_end :: "string \<Rightarrow> bool" where
  "value_end rest =
     (case rest of
        [] \<Rightarrow> True
      | c # cs \<Rightarrow> \<not> is_digit c \<and> c \<noteq> CHR ''.'' \<and> c \<noteq> CHR ''e'' \<and> c \<noteq> CHR ''E'')"

subsection \<open>\<^verbatim>\<open>export_to_json\<close>\<close>

text \<open>
  Files are a map from paths to their text. The operation returns the files after the
  write and the line it prints; the file is taken to open for writing.
\<close>

definition export_to_json ::
  "product list \<Rightarrow> string \<Rightarrow> (string \<rightharpoonup> string) \<Rightarrow> (string \<rightharpoonup> string) \<times> string list" where
  "export_to_json products filename files =
     (let products_dict =
            map (\<lambda>product.
                   PDict [(''id'', id' product), (''title'', title product),
                          (''handle'', handle product), (''vendor'', vendor product),
                          (''product_type'', product_type product), (''status'', status product),
                          (''price'', price product),
                          (''inventory_quantity'', inventory_quantity product)])
                products
      in (files(filename \<mapsto> json_dump (PList products_dict)),
          [CHR 0x0A # ''Products exported to '' @ filename]))"

text \<open>Reading a file back: \<^verbatim>\<open>json.load(open(filename))\<close>.\<close>

definition reparse :: "(string \<rightharpoonup> string) \<Rightarrow> string \<Rightarrow> pyval option" where
  "reparse files filename = (case files filename of None \<Rightarrow> None | Some text \<Rightarrow> json_loads text)"

text \<open>The fields of a record are Python values.\<close>

definition wf_product :: "product \<Rightarrow> bool" where
  "wf_product p =
     (wf_json (id' p) \<and> wf_json (title p) \<and> wf_json (handle p) \<and> wf_json (vendor p) \<and>
      wf_json (product_type p) \<and> wf_json (status p) \<and> wf_json (price p) \<and>
      wf_json (inventory_quantity p))"

text \<open>A record with neither price nor quantity.\<close>

definition unpriced_product :: product where
  "unpriced_product =
     \<lparr>id' = PInt 7, title = PStr ''Cup'', handle = PStr ''cup'', vendor = PStr ''Acme'',
      product_type = PStr ''Kitchen'', status = PStr ''draft'', price = PNone,
      inventory_quantity = PNone\<rparr>"

text \<open>A text starts a value: its first character is not white space and closes nothing.\<close>

definition starts_value :: "string \<Rightarrow> bool" where
  "starts_value s = (case s of [] \<Rightarrow> False | c # cs \<Rightarrow> \<not> is_ws c \<and> c \<noteq> CHR '']'' \<and> c \<noteq> CHR ''}'')"

section \<open>Lemmas\<close>

subsection \<open>Splitting strings\<close>

lemma contains_sublist: "contains sub s = sublist sub s"
  by (induction s) (auto simp: sublist_Cons_right)

lemma py_split_not_Nil: "py_split sep s \<noteq> []"
  by (induction sep s rule: py_split.induct) (auto split: list.splits)

lemma py_split_length: "sep \<noteq> [] \<Longrightarrow> (2 \<le> length (py_split sep s)) = contains sep s"
proof (induction sep s rule: py_split.induct)
  case (1 sep)
  then show ?case by simp
next
  case (2 sep c cs)
  show ?case
  proof (cases "prefix sep (c # cs)")
    case True
    with 2 py_split_not_Nil[of sep "drop (length sep) (c # cs)"] show ?thesis
      by (cases "py_split sep (drop (length sep) (c # cs))") auto
  next
    case False
    with 2 show ?thesis by (auto split: list.splits)
  qed
qed


lemma py_split_char_hd: "py_split [c] s = p # ps \<Longrightarrow> p = takeWhile (\<lambda>x. x \<noteq> c) s"
  by (induction s arbitrary: p ps) (auto simp: py_split_not_Nil split: list.splits if_splits)


lemma py_split_hd_prefix: "py_split sep s = q # qs \<Longrightarrow> prefix q s"
  by (induction sep s arbitrary: q qs rule: py_split.induct)
     (auto split: if_splits list.splits)

lemma py_split_sublist: "p \<in> set (py_split sep s) \<Longrightarrow> sublist p s"
proof (induction sep s arbitrary: p rule: py_split.induct)
  case (1 sep)
  then show ?case by simp
next
  case (2 sep c cs)
  show ?case
  proof (cases "sep \<noteq> [] \<and> prefix sep (c # cs)")
    case True
    with 2(3) have "p = [] \<or> p \<in> set (py_split sep (drop (length sep) (c # cs)))" by auto
    then show ?thesis
    proof
      assume "p = []" then show ?thesis by simp
    next
      assume "p \<in> set (py_split sep (drop (length sep) (c # cs)))"
      with 2(1) True have "sublist p (drop (length sep) (c # cs))" by blast
      then show ?thesis using sublist_drop sublist_order.order_trans by blast
    qed
  next
    case False
    obtain q qs where sp: "py_split sep cs = q # qs"
      using py_split_not_Nil[of sep cs] by (cases "py_split sep cs") auto
    with False 2(3) have "p = c # q \<or> p \<in> set qs" by auto
    then show ?thesis
    proof
      assume "p = c # q"
      moreover have "prefix q cs" using sp by (rule py_split_hd_prefix)
      ultimately show ?thesis by (simp add: prefix_imp_sublist)
    next
      assume "p \<in> set qs"
      with 2(2) False sp have "sublist p cs" by auto
      then show ?thesis by (simp add: sublist_Cons_right)
    qed
  qed
qed

lemma prefix_takeWhile: "prefix sub s \<Longrightarrow> c \<notin> set sub \<Longrightarrow> prefix sub (takeWhile (\<lambda>x. x \<noteq> c) s)"
proof -
  assume "prefix sub s" "c \<notin> set sub"
  then obtain zs where "s = sub @ zs" by (auto simp: prefix_def)
  moreover have "takeWhile (\<lambda>x. x \<noteq> c) (sub @ zs) = sub @ takeWhile (\<lambda>x. x \<noteq> c) zs"
    using \<open>c \<notin> set sub\<close> by (intro takeWhile_append2) auto
  ultimately show ?thesis by simp
qed

lemma contains_piece:
  "contains sub s \<Longrightarrow> c \<notin> set sub \<Longrightarrow> \<exists>p \<in> set (py_split [c] s). contains sub p"
proof (induction s)
  case Nil
  then show ?case by simp
next
  case (Cons x xs)
  show ?case
  proof (cases "x = c")
    case True
    show ?thesis
    proof (cases "sub = []")
      case True
      then show ?thesis using \<open>x = c\<close> by simp
    next
      case False
      with Cons.prems True have "\<not> prefix sub (x # xs)"
        by (cases sub) auto
      with Cons.prems have "contains sub xs" by simp
      with Cons.IH Cons.prems True show ?thesis by auto
    qed
  next
    case False
    obtain p ps where sp: "py_split [c] xs = p # ps"
      using py_split_not_Nil[of "[c]" xs] by (cases "py_split [c] xs") auto
    have p: "p = takeWhile (\<lambda>x. x \<noteq> c) xs" using sp by (rule py_split_char_hd)
    have eq: "py_split [c] (x # xs) = (x # p) # ps" using False sp by simp
    from Cons.prems have "prefix sub (x # xs) \<or> contains sub xs" by simp
    then show ?thesis
    proof
      assume "prefix sub (x # xs)"
      then have "prefix sub (takeWhile (\<lambda>x. x \<noteq> c) (x # xs))"
        using Cons.prems(2) by (rule prefix_takeWhile)
      then have "prefix sub (x # p)" using False p by simp
      then have "contains sub (x # p)" by simp
      then show ?thesis unfolding eq by simp
    next
      assume "contains sub xs"
      with Cons.IH Cons.prems obtain q where "q \<in> set (p # ps)" "contains sub q"
        unfolding sp by blast
      then show ?thesis unfolding eq by auto
    qed
  qed
qed







subsection \<open>Reading the marker\<close>

lemma scan_links_find:
  "scan_links ls pi = (case find (contains rel_next) ls of None \<Rightarrow> Inr pi
     | Some l \<Rightarrow> (case link_page_info l of Inl e \<Rightarrow> Inl e | Inr t \<Rightarrow> Inr (PStr t)))"
  by (induction ls) auto

lemma link_page_info_ok:
  "(\<exists>t. link_page_info l = Inr t) = contains ''page_info='' l"
proof -
  have len: "(2 \<le> length (py_split ''page_info='' l)) = contains ''page_info='' l"
    by (rule py_split_length) simp
  show ?thesis
  proof (cases "py_split ''page_info='' l")
    case Nil
    then show ?thesis using py_split_not_Nil by blast
  next
    case (Cons a as)
    note outer = Cons
    show ?thesis
    proof (cases as)
      case Nil
      with outer len show ?thesis by (simp add: link_page_info_def)
    next
      case (Cons b bs)
      obtain u us where u: "py_split ''&'' b = u # us"
        using py_split_not_Nil[of "''&''" b] by (cases "py_split ''&'' b") auto
      obtain v vs where v: "py_split ''>'' u = v # vs"
        using py_split_not_Nil[of "''>''" u] by (cases "py_split ''>'' u") auto
      from outer Cons len u v show ?thesis
        by (simp add: link_page_info_def)
    qed
  qed
qed


lemma next_segment_Some: "contains rel_next h \<Longrightarrow> \<exists>l. next_segment h = Some l \<and> contains rel_next l"
proof -
  assume a: "contains rel_next h"
  have "CHR '','' \<notin> set rel_next" by (simp add: rel_next_def dquote_def)
  with a obtain p where "p \<in> set (py_split '','' h)" "contains rel_next p"
    using contains_piece by blast
  then have "find (contains rel_next) (py_split '','' h) \<noteq> None"
    by (auto simp: find_None_iff)
  then obtain l where l: "find (contains rel_next) (py_split '','' h) = Some l" by auto
  then have "contains rel_next l" by (auto simp: find_Some_iff)
  with l show ?thesis by (simp add: next_segment_def)
qed

lemma next_segment_contains: "next_segment h = Some l \<Longrightarrow> contains rel_next h"
proof -
  assume "next_segment h = Some l"
  then have "l \<in> set (py_split '','' h)" "contains rel_next l"
    by (auto simp: next_segment_def find_Some_iff)
  then have "sublist l h" "sublist rel_next l"
    by (auto simp: py_split_sublist contains_sublist)
  then show ?thesis unfolding contains_sublist by (rule sublist_order.order_trans[rotated])
qed

subsection \<open>Normalizing entries\<close>

lemma from_dict_all_normalizes: "(from_dict_all es = Inr ps) = normalizes_to es ps"
  unfolding normalizes_to_def
proof (induction es arbitrary: ps)
  case Nil
  then show ?case by auto
next
  case (Cons e es)
  show ?case
    by (cases ps) (auto simp: Cons.IH[symmetric] split: sum.splits)
qed

lemma from_dict_missing_KeyError:
  assumes "k \<in> set required_fields" "map_of kvs k = None"
    and "first_variant_fields (PDict kvs) = Inr pq"
  shows "\<exists>k' \<in> set required_fields. map_of kvs k' = None \<and>
           from_dict (PDict kvs) = Inl (KeyError (PStr k'))"
proof -
  obtain p q where pq: "pq = (p, q)" by (cases pq)
  show ?thesis
    using assms pq unfolding required_fields_def from_dict_def
    by (auto split: option.splits)
qed

lemma from_dict_missing:
  assumes "k \<in> set required_fields" "map_of kvs k = None"
  shows "\<exists>e. from_dict (PDict kvs) = Inl e"
proof (cases "first_variant_fields (PDict kvs)")
  case (Inl e)
  then show ?thesis by (simp add: from_dict_def)
next
  case (Inr pq)
  from from_dict_missing_KeyError[OF assms Inr] show ?thesis by blast
qed

lemma from_dict_all_raises:
  assumes "d \<in> set es" "from_dict d = Inl e"
  shows "\<exists>e'. from_dict_all es = Inl e'"
  using assms by (induction es) (auto split: sum.splits)

subsection \<open>One pass through the loop\<close>

lemma full_page_iff:
  "full_page r ps = (\<exists>body link es. r = Delivered (PDict body) link \<and>
      map_of body ''products'' = Some (PList es) \<and> es \<noteq> [] \<and> normalizes_to es ps)"
proof (cases r)
  case (Failed m)
  then show ?thesis by (simp add: full_page_def)
next
  case (Delivered d link)
  show ?thesis
  proof (cases d)
    case (PDict body)
    show ?thesis
    proof (cases "map_of body ''products''")
      case None
      with Delivered PDict show ?thesis by (simp add: full_page_def)
    next
      case (Some v)
      with Delivered PDict show ?thesis by (cases v) (simp_all add: full_page_def)
    qed
  qed (simp_all add: Delivered full_page_def)
qed

lemma loop_body_continue_token:
  assumes "full_page (Delivered d (Some h)) ps" "next_segment h = Some l" "link_page_info l = Inr t"
  shows "loop_body (Delivered d (Some h)) vars =
           Inr (Continue, vars\<lparr>all_products := all_products vars @ ps, page_info := PStr t\<rparr>)"
proof -
  from assms(1) obtain body es where r: "d = PDict body"
    and es: "map_of body ''products'' = Some (PList es)" "es \<noteq> []" "normalizes_to es ps"
    unfolding full_page_iff by blast
  have c: "contains rel_next h" using assms(2) by (rule next_segment_contains)
  have fd: "from_dict_all es = Inr ps" using es(3) by (simp add: from_dict_all_normalizes)
  have hne: "h \<noteq> []" using c by (cases h) (auto simp: rel_next_def)
  have "find (contains rel_next) (py_split '','' h) = Some l"
    using assms(2) by (simp add: next_segment_def)
  then show ?thesis
    using r es(1,2) assms(3) c fd hne
    by (simp add: loop_body_def scan_links_find)
qed

text \<open>A page with entries and a usable marker lets the loop go on.\<close>

lemma loop_body_continue:
  assumes "full_page r ps" "next_has_token r"
  shows "\<exists>t. loop_body r vars =
           Inr (Continue, vars\<lparr>all_products := all_products vars @ ps, page_info := PStr t\<rparr>)"
proof -
  from assms(2) obtain d h l where r: "r = Delivered d (Some h)"
    and l: "next_segment h = Some l" "contains ''page_info='' l"
    by (auto simp: next_has_token_def split: response.splits option.splits)
  from l(2) obtain t where "link_page_info l = Inr t" using link_page_info_ok by blast
  with assms(1) r l(1) show ?thesis
    by (auto intro: loop_body_continue_token)
qed

lemma loop_body_break:
  assumes "full_page r ps" "\<not> has_next r"
  shows "loop_body r vars = Inr (Break, vars\<lparr>all_products := all_products vars @ ps\<rparr>)"
proof -
  from assms(1) obtain body link es where r: "r = Delivered (PDict body) link"
    and es: "map_of body ''products'' = Some (PList es)" "es \<noteq> []" "normalizes_to es ps"
    unfolding full_page_iff by blast
  have fd: "from_dict_all es = Inr ps" using es(3) by (simp add: from_dict_all_normalizes)
  show ?thesis using r es(1,2) fd assms(2)
    by (cases link) (auto simp: loop_body_def has_next_def)
qed

lemma loop_body_failed:
  "loop_body (Failed msg) vars =
     Inr (Break, vars\<lparr>console := console vars @ [''Error fetching products: '' @ msg]\<rparr>)"
  by (simp add: loop_body_def)

lemma loop_body_empty:
  assumes "empty_page r"
  shows "loop_body r vars = Inr (Break, vars)"
proof -
  from assms obtain body link where r: "r = Delivered (PDict body) link"
    by (cases r; simp add: empty_page_def split: pyval.splits)
  with assms show ?thesis
    by (auto simp: loop_body_def empty_page_def split: option.splits)
qed

lemma loop_body_raises:
  assumes "map_of body ''products'' = Some (PList es)" "d \<in> set es" "from_dict d = Inl e"
  shows "\<exists>e'. loop_body (Delivered (PDict body) link) vars = Inl e'"
proof -
  from from_dict_all_raises[OF assms(2,3)] obtain e' where "from_dict_all es = Inl e'" by blast
  moreover from assms(2) have "es \<noteq> []" by auto
  ultimately show ?thesis using assms(1) by (simp add: loop_body_def)
qed

lemma loop_body_Continue_not_ends:
  assumes "loop_body r vars = Inr (Continue, vars')"
  shows "\<not> ends_pagination r"
proof (cases r)
  case (Failed m)
  with assms show ?thesis by (simp add: loop_body_def)
next
  case (Delivered d link)
  with assms obtain pd where pd: "py_get d ''products'' (PList []) = Inr pd" "truthy pd"
    by (auto simp: loop_body_def split: sum.splits if_splits)
  from assms Delivered pd obtain h where h: "link = Some h" "contains rel_next h"
    by (auto simp: loop_body_def Let_def split: sum.splits if_splits option.splits)
  have "\<not> empty_page r"
  proof (cases d)
    case (PDict body)
    with pd Delivered show ?thesis
      by (auto simp: empty_page_def split: option.splits)
  qed (simp_all add: Delivered empty_page_def)
  with Delivered h show ?thesis
    by (simp add: ends_pagination_def is_failed_def has_next_def)
qed

subsection \<open>The loop\<close>

lemma list_all2_snoc_left:
  assumes "list_all2 P (xs @ [x]) ys"
  obtains ys' y where "ys = ys' @ [y]" "list_all2 P xs ys'" "P x y"
proof -
  from assms obtain us vs where u: "ys = us @ vs" "list_all2 P xs us" "list_all2 P [x] vs"
    by (auto simp: list_all2_append1)
  from u(3) obtain y where "vs = [y]" "P x y" by (auto simp: list_all2_Cons1)
  with u that show ?thesis by blast
qed

text \<open>Pages that let the loop go on are consumed one by one.\<close>

lemma fetch_loop_prefix:
  assumes "list_all2 full_page pre pss" "\<forall>r \<in> set pre. next_has_token r"
  shows "\<exists>pi reqs'. length reqs' = length reqs + length pre \<and> (set reqs' \<subseteq> set reqs \<union> range (page_request api st)) \<and>
           fetch_loop api st vars reqs (pre @ rest) =
           fetch_loop api st (vars\<lparr>all_products := all_products vars @ concat pss, page_info := pi\<rparr>) reqs' rest"
  using assms
proof (induction pre arbitrary: pss vars reqs)
  case Nil
  then show ?case by (intro exI[of _ "page_info vars"] exI[of _ reqs]) simp
next
  case (Cons r pre)
  from Cons.prems(1) obtain ps pss' where pss: "pss = ps # pss'" "full_page r ps" "list_all2 full_page pre pss'"
    by (cases pss) auto
  from Cons.prems(2) have nt: "next_has_token r" "\<forall>r \<in> set pre. next_has_token r" by auto
  from loop_body_continue[OF pss(2) nt(1)] obtain t where
    t: "loop_body r vars = Inr (Continue, vars\<lparr>all_products := all_products vars @ ps, page_info := PStr t\<rparr>)"
    by blast
  let ?vars = "vars\<lparr>all_products := all_products vars @ ps, page_info := PStr t\<rparr>"
  let ?reqs = "reqs @ [page_request api st (page_info vars)]"
  from Cons.IH[OF pss(3) nt(2), of ?reqs ?vars] obtain pi reqs' where
    ih: "length reqs' = length ?reqs + length pre" "set reqs' \<subseteq> set ?reqs \<union> range (page_request api st)"
        "fetch_loop api st ?vars ?reqs (pre @ rest) =
         fetch_loop api st (?vars\<lparr>all_products := all_products ?vars @ concat pss', page_info := pi\<rparr>) reqs' rest"
    by blast
  show ?case
    apply (rule exI[of _ pi], rule exI[of _ reqs'])
    using ih t pss(1) by auto
qed

lemma fetch_loop_ends:
  assumes "ends_pagination r"
  shows "result (fetch_loop api st vars reqs (pre @ r # post)) \<noteq> None \<and>
         length (requests (fetch_loop api st vars reqs (pre @ r # post))) \<le> length reqs + length pre + 1"
proof (induction pre arbitrary: vars reqs)
  case Nil
  show ?case
  proof (cases "loop_body r vars")
    case (Inl e)
    then show ?thesis by simp
  next
    case (Inr cv)
    obtain c v where cv: "cv = (c, v)" by (cases cv)
    with Inr assms loop_body_Continue_not_ends have "c = Break" by (cases c) auto
    with Inr cv show ?thesis by simp
  qed
next
  case (Cons a pre)
  show ?case
  proof (cases "loop_body a vars")
    case (Inl e)
    then show ?thesis by simp
  next
    case (Inr cv)
    obtain c v where cv: "cv = (c, v)" by (cases cv)
    show ?thesis
    proof (cases c)
      case Break
      with Inr cv show ?thesis by simp
    next
      case Continue
      with Inr cv Cons.IH[of v "reqs @ [page_request api st (page_info vars)]"] show ?thesis by simp
    qed
  qed
qed

lemma fetch_loop_waits:
  assumes "list_all2 full_page rs pss" "\<forall>r \<in> set rs. next_has_token r"
  shows "result (get_all_products api st rs) = None \<and>
         length (requests (get_all_products api st rs)) = length rs + 1"
proof -
  let ?v0 = "\<lparr>all_products = [], page_info = PNone, console = []\<rparr>"
  from fetch_loop_prefix[OF assms, of "[]" api st ?v0 "[]"]
  show ?thesis by (auto simp: get_all_products_def)
qed

lemma fetch_loop_limits:
  assumes "\<forall>q \<in> set reqs. limit_of q = Some (PInt 250)"
  shows "\<forall>q \<in> set (requests (fetch_loop api st vars reqs rs)). limit_of q = Some (PInt 250)"
  using assms
proof (induction rs arbitrary: vars reqs)
  case Nil
  then show ?case by (auto simp: limit_of_def page_request_def)
next
  case (Cons r rs)
  have q: "\<forall>q \<in> set (reqs @ [page_request api st (page_info vars)]). limit_of q = Some (PInt 250)"
    using Cons.prems by (auto simp: limit_of_def page_request_def)
  show ?case
  proof (cases "loop_body r vars")
    case (Inl e)
    with q show ?thesis by simp
  next
    case (Inr cv)
    obtain c v where cv: "cv = (c, v)" by (cases cv)
    show ?thesis
    proof (cases c)
      case Break
      with Inr cv q show ?thesis by simp
    next
      case Continue
      with Inr cv Cons.IH[OF q, of v] show ?thesis by simp
    qed
  qed
qed

subsection \<open>The sample data\<close>

lemma example_entry_normalizes: "from_dict example_entry = Inr example_product"
  by (simp add: example_entry_def example_product_def from_dict_def first_variant_fields_def)

lemma example_link_segment: "next_segment example_link = Some example_link"
  by (simp add: next_segment_def example_link_def rel_next_def dquote_def)

lemma example_link_page_info: "link_page_info example_link = Inr ''abc123''"
  by (simp add: link_page_info_def example_link_def)

lemma example_full_page:
  "full_page (example_page [example_entry] link) [example_product]"
  "full_page (example_page [example_entry, example_entry] link) [example_product, example_product]"
  by (simp_all add: example_page_def full_page_def normalizes_to_def example_entry_normalizes)

lemma example_link_token: "next_has_token (example_page es (Some example_link))"
  by (simp add: next_has_token_def example_page_def example_link_segment) (simp add: example_link_def)

lemma example_has_next:
  "has_next (example_page es (Some example_link))" "\<not> has_next (example_page es None)"
  by (simp_all add: has_next_def example_page_def example_link_def rel_next_def dquote_def)

subsection \<open>Numbers, strings and values through JSON\<close>

lemma char_of_eqI: "(of_char c :: nat) = n \<Longrightarrow> char_of n = c"
  by auto

lemma of_char_digit: "n < 10 \<Longrightarrow> (of_char (char_of (48 + n :: nat) :: char) :: nat) = 48 + n"
  by simp

lemma is_digit_char: "n < 10 \<Longrightarrow> is_digit (char_of (48 + n :: nat))"
  by (simp add: is_digit_def)

lemma digit_val_char: "n < 10 \<Longrightarrow> digit_val (char_of (48 + n :: nat)) = n"
  by (simp add: digit_val_def)

lemma show_nat_digits: "\<forall>c \<in> set (show_nat n). is_digit c"
  by (induction n rule: show_nat.induct) (subst show_nat.simps, auto simp: is_digit_char)

lemma show_nat_not_Nil: "show_nat n \<noteq> []"
  by (subst show_nat.simps) simp

lemma show_nat_value: "foldl (\<lambda>a d. 10 * a + digit_val d) 0 (show_nat n) = n"
proof (induction n rule: show_nat.induct)
  case (1 n)
  show ?case
  proof (cases "n < 10")
    case True
    then show ?thesis by (subst show_nat.simps) (simp add: digit_val_char)
  next
    case False
    with 1 show ?thesis
      by (subst show_nat.simps) (simp add: digit_val_char)
  qed
qed

lemma char_of_zero_iff: "n < 10 \<Longrightarrow> ((char_of (48 + n :: nat) :: char) = CHR ''0'') = (n = 0)"
proof -
  assume n: "n < 10"
  have "((char_of (48 + n :: nat) :: char) = CHR ''0'') =
        ((of_char (char_of (48 + n :: nat) :: char) :: nat) = of_char (CHR ''0''))"
    by (simp only: of_char_eq_iff)
  also have "\<dots> = (n = 0)" using n by simp
  finally show ?thesis .
qed

lemma show_nat_hd: "\<exists>c cs. show_nat n = c # cs \<and> is_digit c \<and> ((c = CHR ''0'') = (n = 0)) "
proof (induction n rule: show_nat.induct)
  case (1 n)
  show ?case
  proof (cases "n < 10")
    case True
    then show ?thesis
      by (subst show_nat.simps) (simp add: is_digit_char char_of_zero_iff)
  next
    case False
    then have "n div 10 \<noteq> 0" by simp
    with 1 False obtain c cs where "show_nat (n div 10) = c # cs" "is_digit c" "c \<noteq> CHR ''0''"
      by auto
    with False show ?thesis
      by (subst show_nat.simps) simp
  qed
qed

lemma takeWhile_digits:
  assumes "\<forall>c \<in> set ds. is_digit c" "rest = [] \<or> \<not> is_digit (hd rest)"
  shows "takeWhile is_digit (ds @ rest) = ds" "dropWhile is_digit (ds @ rest) = rest"
  using assms by (induction ds) (auto simp: takeWhile_eq_Nil_iff dropWhile_eq_self_iff)

lemma value_end_digit: "value_end rest \<Longrightarrow> rest = [] \<or> \<not> is_digit (hd rest)"
  by (cases rest) (auto simp: value_end_def)

lemma scan_nat_show:
  assumes "value_end rest"
  shows "scan_nat (show_nat n @ rest) = Some (n, rest)"
proof -
  obtain c cs where s: "show_nat n = c # cs" "is_digit c" "(c = CHR ''0'') = (n = 0)"
    using show_nat_hd by blast
  show ?thesis
  proof (cases "n = 0")
    case True
    then have "show_nat n = ''0''" by (subst show_nat.simps) (simp add: char_of_eqI)
    then show ?thesis using True by (simp add: scan_nat_def)
  next
    case False
    have "takeWhile is_digit (show_nat n @ rest) = show_nat n" "dropWhile is_digit (show_nat n @ rest) = rest"
      using takeWhile_digits[OF show_nat_digits value_end_digit[OF assms]] by auto
    then have "foldl (\<lambda>a d. 10 * a + digit_val d) 0 (takeWhile is_digit (c # cs @ rest)) = n"
       "dropWhile is_digit (c # cs @ rest) = rest"
      using s(1) show_nat_value[of n] by auto
    with s False show ?thesis
      unfolding scan_nat_def by (simp del: takeWhile.simps dropWhile.simps foldl.simps)
  qed
qed

lemma scan_number_encode_int:
  assumes "value_end rest"
  shows "scan_number (encode_int i @ rest) = Some (PInt i, rest)"
proof -
  obtain c cs where s: "show_nat (nat i) = c # cs" "is_digit c"
    using show_nat_hd by blast
  have m: "c \<noteq> CHR ''-''" using s(2) by (auto simp: is_digit_def)
  have tail: "(case rest of [] \<Rightarrow> Some (PInt i, rest)
           | c # cs \<Rightarrow> if c = CHR ''.'' \<or> c = CHR ''e'' \<or> c = CHR ''E'' then None else Some (PInt i, rest))
        = Some (PInt i, rest)"
    using assms by (cases rest) (auto simp: value_end_def)
  show ?thesis
  proof (cases "i < 0")
    case True
    then have "encode_int i @ rest = CHR ''-'' # (show_nat (nat (- i)) @ rest)" by (simp add: encode_int_def)
    with True tail show ?thesis
      by (simp add: scan_number_def scan_nat_show[OF assms])
  next
    case False
    then have e: "encode_int i @ rest = show_nat (nat i) @ rest" by (simp add: encode_int_def)
    have "scan_nat (c # cs @ rest) = Some (nat i, rest)"
      using scan_nat_show[OF assms, of "nat i"] s(1) by simp
    with False m tail show ?thesis
      unfolding e scan_number_def s(1) by simp
  qed
qed

lemma hex_val_hex_digit: "m < 16 \<Longrightarrow> hex_val (hex_digit m) = Some m"
  by (simp add: hex_val_def hex_digit_def Let_def)

lemma hex_val_zero: "hex_val (CHR ''0'') = Some 0"
  by (simp add: hex_val_def)

lemma scan_string_literal:
  assumes "c \<noteq> dquote" "c \<noteq> backslash" "\<not> (of_char c :: nat) < 32"
  shows "scan_string (c # x) = (case scan_string x of None \<Rightarrow> None | Some (s, t) \<Rightarrow> Some (c # s, t))"
  using assms by simp

lemma scan_string_named:
  assumes "unescape e = Some c" "e \<noteq> CHR ''u''"
  shows "scan_string (backslash # e # x) = (case scan_string x of None \<Rightarrow> None | Some (s, t) \<Rightarrow> Some (c # s, t))"
  using assms by (simp add: backslash_def dquote_def)

lemma scan_string_control:
  assumes "(of_char c :: nat) < 32"
  shows "scan_string ([backslash, CHR ''u'', CHR ''0'', CHR ''0'',
            hex_digit (of_char c div 16), hex_digit (of_char c mod 16)] @ x)
         = (case scan_string x of None \<Rightarrow> None | Some (s, t) \<Rightarrow> Some (c # s, t))"
proof -
  let ?n = "of_char c :: nat"
  have a: "hex_val (hex_digit (?n div 16)) = Some (?n div 16)"
    using assms by (intro hex_val_hex_digit) simp
  have b: "hex_val (hex_digit (?n mod 16)) = Some (?n mod 16)"
    by (intro hex_val_hex_digit) simp
  have cp: "char_of ?n = c" by (rule char_of_eqI) simp
  show ?thesis
    using assms by (simp add: a b cp hex_val_zero backslash_def dquote_def Let_def split: option.splits)
qed

lemma scan_string_step:
  "scan_string (escape_char c @ x) = (case scan_string x of None \<Rightarrow> None | Some (s, t) \<Rightarrow> Some (c # s, t))"
proof -
  consider (bs) "c = backslash" | (dq) "c = dquote" | (b) "c = CHR 0x08" | (f) "c = CHR 0x0C"
    | (n) "c = CHR 0x0A" | (r) "c = CHR 0x0D" | (t) "c = CHR 0x09"
    | (ctl) "c \<noteq> backslash" "c \<noteq> dquote" "c \<noteq> CHR 0x08" "c \<noteq> CHR 0x0C" "c \<noteq> CHR 0x0A" "c \<noteq> CHR 0x0D"
        "c \<noteq> CHR 0x09" "(of_char c :: nat) < 32"
    | (lit) "c \<noteq> backslash" "c \<noteq> dquote" "\<not> (of_char c :: nat) < 32"
    by blast
  then show ?thesis
  proof cases
    case bs
    have "escape_char c = [backslash, backslash]" using bs by (simp add: escape_char_def)
    moreover have "unescape backslash = Some c" using bs by (simp add: unescape_def backslash_def dquote_def)
    moreover have "backslash \<noteq> CHR ''u''" by (simp add: backslash_def)
    ultimately show ?thesis using scan_string_named[of backslash c x] by simp
  next
    case dq
    have "escape_char c = [backslash, dquote]" using dq by (simp add: escape_char_def backslash_def dquote_def)
    moreover have "unescape dquote = Some c" using dq by (simp add: unescape_def)
    moreover have "dquote \<noteq> CHR ''u''" by (simp add: dquote_def)
    ultimately show ?thesis using scan_string_named[of dquote c x] by simp
  next
    case b
    have "escape_char c = [backslash, CHR ''b'']" using b by (simp add: escape_char_def backslash_def dquote_def)
    moreover have "unescape (CHR ''b'') = Some c" using b by (simp add: unescape_def backslash_def dquote_def)
    ultimately show ?thesis using scan_string_named[of "CHR ''b''" c x] by simp
  next
    case f
    have "escape_char c = [backslash, CHR ''f'']" using f by (simp add: escape_char_def backslash_def dquote_def)
    moreover have "unescape (CHR ''f'') = Some c" using f by (simp add: unescape_def backslash_def dquote_def)
    ultimately show ?thesis using scan_string_named[of "CHR ''f''" c x] by simp
  next
    case n
    have "escape_char c = [backslash, CHR ''n'']" using n by (simp add: escape_char_def backslash_def dquote_def)
    moreover have "unescape (CHR ''n'') = Some c" using n by (simp add: unescape_def backslash_def dquote_def)
    ultimately show ?thesis using scan_string_named[of "CHR ''n''" c x] by simp
  next
    case r
    have "escape_char c = [backslash, CHR ''r'']" using r by (simp add: escape_char_def backslash_def dquote_def)
    moreover have "unescape (CHR ''r'') = Some c" using r by (simp add: unescape_def backslash_def dquote_def)
    ultimately show ?thesis using scan_string_named[of "CHR ''r''" c x] by simp
  next
    case t
    have "escape_char c = [backslash, CHR ''t'']" using t by (simp add: escape_char_def backslash_def dquote_def)
    moreover have "unescape (CHR ''t'') = Some c" using t by (simp add: unescape_def backslash_def dquote_def)
    ultimately show ?thesis using scan_string_named[of "CHR ''t''" c x] by simp
  next
    case ctl
    then have "escape_char c = [backslash, CHR ''u'', CHR ''0'', CHR ''0'',
            hex_digit (of_char c div 16), hex_digit (of_char c mod 16)]"
      by (simp add: escape_char_def)
    then show ?thesis using scan_string_control[OF ctl(8), of x] by simp
  next
    case lit
    have "c \<noteq> CHR 0x08" "c \<noteq> CHR 0x0C" "c \<noteq> CHR 0x0A" "c \<noteq> CHR 0x0D" "c \<noteq> CHR 0x09"
      using lit(3) by auto
    with lit have "escape_char c = [c]" by (simp add: escape_char_def)
    then show ?thesis using scan_string_literal[OF lit(2,1,3), of x] by simp
  qed
qed

lemma scan_string_escaped:
  "scan_string (concat (map escape_char s) @ dquote # rest) = Some (s, rest)"
proof (induction s)
  case Nil
  show ?case by simp
next
  case (Cons c s)
  have "scan_string (concat (map escape_char (c # s)) @ dquote # rest) =
        scan_string (escape_char c @ (concat (map escape_char s) @ dquote # rest))" by simp
  also have "\<dots> = Some (c # s, rest)"
    unfolding scan_string_step Cons.IH by simp
  finally show ?case .
qed

lemma scan_string_encode_str:
  "\<exists>body. encode_str s = dquote # body \<and> scan_string (body @ rest) = Some (s, rest)"
  by (simp add: encode_str_def scan_string_escaped)

lemma skip_ws_newline_indent: "skip_ws (newline_indent lvl @ s) = skip_ws s"
  by (simp add: skip_ws_def newline_indent_def is_ws_def dropWhile_append)

lemma skip_ws_starts: "starts_value s \<Longrightarrow> skip_ws s = s"
  by (cases s) (auto simp: starts_value_def skip_ws_def)

lemma skip_ws_starts_append: "starts_value s \<Longrightarrow> skip_ws (s @ t) = s @ t"
  by (cases s) (auto simp: starts_value_def skip_ws_def)

lemma skip_ws_all: "\<forall>c \<in> set w. is_ws c \<Longrightarrow> \<not> is_ws d \<Longrightarrow> skip_ws (w @ d # rest) = d # rest"
  by (induction w) (auto simp: skip_ws_def)

lemma value_end_char:
  "is_ws c \<or> c = CHR '']'' \<or> c = CHR ''}'' \<or> c = CHR '','' \<Longrightarrow> value_end (c # rest)"
  unfolding value_end_def is_ws_def is_digit_def by (elim disjE) simp_all

lemma value_end_ws: "\<forall>c \<in> set w. is_ws c \<Longrightarrow> d = CHR '']'' \<or> d = CHR ''}'' \<Longrightarrow> value_end (w @ d # rest)"
proof (cases w)
  case Nil
  assume "d = CHR '']'' \<or> d = CHR ''}''"
  then have "value_end (d # rest)" by (intro value_end_char) blast
  with Nil show ?thesis by simp
next
  case (Cons c w')
  assume "\<forall>c \<in> set w. is_ws c"
  with Cons have "is_ws c" by simp
  then have "value_end (c # (w' @ d # rest))" by (intro value_end_char) blast
  with Cons show ?thesis by simp
qed

lemma value_end_comma: "value_end (CHR '','' # rest)"
  by (intro value_end_char) blast

lemma encode_int_hd: "\<exists>c cs. encode_int i = c # cs \<and> (c = CHR ''-'' \<or> is_digit c)"
proof -
  obtain c cs where "show_nat (nat i) = c # cs" "is_digit c" using show_nat_hd by blast
  then show ?thesis by (auto simp: encode_int_def)
qed

lemma digit_facts:
  assumes "c = CHR ''-'' \<or> is_digit c"
  shows "\<not> is_ws c" "c \<noteq> CHR '']''" "c \<noteq> CHR ''}''" "c \<noteq> dquote" "c \<noteq> CHR ''[''" "c \<noteq> CHR ''{''"
    "c \<noteq> CHR ''n''" "c \<noteq> CHR ''t''" "c \<noteq> CHR ''f''"
  using assms by (auto simp: is_digit_def is_ws_def dquote_def)

lemma encode_str_hd: "encode_str s = dquote # tl (encode_str s)"
  by (simp add: encode_str_def)

lemma encode_starts: "starts_value (encode lvl v @ t)"
proof (cases v)
  case (PInt i)
  obtain c cs where "encode_int i = c # cs" "c = CHR ''-'' \<or> is_digit c" using encode_int_hd by blast
  with PInt digit_facts[OF this(2)] show ?thesis by (simp add: starts_value_def)
qed (auto simp: starts_value_def is_ws_def encode_str_def dquote_def)

lemma encode_items_starts: "xs \<noteq> [] \<Longrightarrow> starts_value (encode_items lvl xs @ t)"
proof (cases xs)
  case (Cons x ys)
  then show ?thesis using encode_starts[of lvl x] by (cases ys) (auto simp: starts_value_def split: list.splits)
qed simp

lemma encode_members_hd: "kvs \<noteq> [] \<Longrightarrow> \<exists>r. encode_members lvl kvs = dquote # r"
proof (cases kvs)
  case (Cons kv ys)
  obtain k v where "kv = (k, v)" by (cases kv)
  with Cons show ?thesis by (cases ys) (auto simp: encode_str_def)
qed simp

lemma encode_length_pos: "0 < length (encode lvl v)"
  using encode_starts[of lvl v "[]"] by (cases "encode lvl v") (auto simp: starts_value_def)

lemma insert_pair_fresh: "k \<notin> fst ` set d \<Longrightarrow> insert_pair (k, v) d = d @ [(k, v)]"
  by (induction d) auto

lemma foldl_insert_pair:
  "distinct (map fst (d @ kvs)) \<Longrightarrow> foldl (\<lambda>d kv. insert_pair kv d) d kvs = d @ kvs"
proof (induction kvs arbitrary: d)
  case Nil
  then show ?case by simp
next
  case (Cons kv kvs)
  obtain k v where kv: "kv = (k, v)" by (cases kv)
  from Cons.prems kv have "k \<notin> fst ` set d" by auto
  then have "insert_pair kv d = d @ [kv]" unfolding kv by (rule insert_pair_fresh)
  moreover have "distinct (map fst ((d @ [kv]) @ kvs))" using Cons.prems by simp
  ultimately show ?case using Cons.IH[of "d @ [kv]"] by simp
qed

lemma dict_of_pairs_distinct: "distinct (map fst kvs) \<Longrightarrow> dict_of_pairs kvs = kvs"
  using foldl_insert_pair[of "[]" kvs] by (simp add: dict_of_pairs_def)

lemma newline_indent_ws: "\<forall>c \<in> set (newline_indent lvl). is_ws c"
  by (simp add: newline_indent_def is_ws_def)

lemma newline_indent_length: "0 < length (newline_indent lvl)"
  by (simp add: newline_indent_def)

lemma scan_once_atom:
  assumes "value_end rest"
  shows "scan_once (Suc m) (''null'' @ rest) = Some (PNone, rest)"
    and "scan_once (Suc m) (''true'' @ rest) = Some (PBool True, rest)"
    and "scan_once (Suc m) (''false'' @ rest) = Some (PBool False, rest)"
    and "scan_once (Suc m) (encode_int i @ rest) = Some (PInt i, rest)"
    and "scan_once (Suc m) (encode_str s @ rest) = Some (PStr s, rest)"
proof -
  show "scan_once (Suc m) (''null'' @ rest) = Some (PNone, rest)" by (simp add: dquote_def)
  show "scan_once (Suc m) (''true'' @ rest) = Some (PBool True, rest)" by (simp add: dquote_def)
  show "scan_once (Suc m) (''false'' @ rest) = Some (PBool False, rest)" by (simp add: dquote_def)
  show "scan_once (Suc m) (encode_str s @ rest) = Some (PStr s, rest)"
    using scan_string_encode_str[of s rest] by auto
  obtain c cs where c: "encode_int i = c # cs" "c = CHR ''-'' \<or> is_digit c" using encode_int_hd by blast
  have "scan_once (Suc m) (c # cs @ rest) = scan_number (c # cs @ rest)"
    using digit_facts[OF c(2)] by simp
  with c(1) scan_number_encode_int[OF assms, of i]
  show "scan_once (Suc m) (encode_int i @ rest) = Some (PInt i, rest)" by simp
qed

lemma scan_once_list:
  assumes "xs \<noteq> []"
    and "scan_array m (encode_items (Suc lvl) xs @ newline_indent lvl @ CHR '']'' # rest) = Some (xs, rest)"
  shows "scan_once (Suc m) (encode lvl (PList xs) @ rest) = Some (PList xs, rest)"
proof -
  let ?t = "encode_items (Suc lvl) xs @ newline_indent lvl @ CHR '']'' # rest"
  have sv: "starts_value ?t" using assms(1) by (rule encode_items_starts)
  then obtain d r where d: "?t = d # r" "d \<noteq> CHR '']''"
    by (cases ?t) (auto simp: starts_value_def)
  have "skip_ws (newline_indent (Suc lvl) @ ?t) = ?t"
    using sv by (simp add: skip_ws_newline_indent skip_ws_starts)
  then have "skip_ws (newline_indent (Suc lvl) @ ?t) = d # r" using d(1) by simp
  moreover have "encode lvl (PList xs) @ rest = CHR ''['' # newline_indent (Suc lvl) @ ?t"
    using assms(1) by simp
  ultimately show ?thesis
    using assms(2) d by (simp add: dquote_def del: encode.simps)
qed

lemma scan_once_dict:
  assumes "kvs \<noteq> []" "distinct (map fst kvs)"
    and "scan_object m (encode_members (Suc lvl) kvs @ newline_indent lvl @ CHR ''}'' # rest) = Some (kvs, rest)"
  shows "scan_once (Suc m) (encode lvl (PDict kvs) @ rest) = Some (PDict kvs, rest)"
proof -
  let ?t = "encode_members (Suc lvl) kvs @ newline_indent lvl @ CHR ''}'' # rest"
  obtain r0 where r0: "encode_members (Suc lvl) kvs = dquote # r0"
    using encode_members_hd[OF assms(1)] by blast
  then obtain r where d: "?t = dquote # r" by simp
  have "starts_value ?t" unfolding d by (simp add: starts_value_def is_ws_def dquote_def)
  then have "skip_ws (newline_indent (Suc lvl) @ ?t) = ?t"
    by (simp add: skip_ws_newline_indent skip_ws_starts)
  then have "skip_ws (newline_indent (Suc lvl) @ ?t) = dquote # r" using d by simp
  moreover have "encode lvl (PDict kvs) @ rest = CHR ''{'' # newline_indent (Suc lvl) @ ?t"
    using assms(1) by simp
  ultimately show ?thesis
    using assms(3) d dict_of_pairs_distinct[OF assms(2)]
    by (simp add: dquote_def del: encode.simps)
qed

lemma scan_array_last:
  assumes "scan_once m (encode lvl x @ w @ CHR '']'' # rest) = Some (x, w @ CHR '']'' # rest)"
    and "\<forall>c \<in> set w. is_ws c"
  shows "scan_array (Suc m) (encode_items lvl [x] @ w @ CHR '']'' # rest) = Some ([x], rest)"
proof -
  have "skip_ws (w @ CHR '']'' # rest) = CHR '']'' # rest"
    using assms(2) by (intro skip_ws_all) (simp_all add: is_ws_def)
  with assms(1) show ?thesis by simp
qed

lemma scan_array_more:
  assumes "scan_once m (encode lvl x @ CHR '','' # newline_indent lvl @ t) = Some (x, CHR '','' # newline_indent lvl @ t)"
    and "starts_value t" "scan_array m t = Some (ys, rest)"
  shows "scan_array (Suc m) (encode lvl x @ CHR '','' # newline_indent lvl @ t) = Some (x # ys, rest)"
proof -
  have "skip_ws (CHR '','' # newline_indent lvl @ t) = CHR '','' # newline_indent lvl @ t"
    by (simp add: skip_ws_def is_ws_def)
  moreover have "skip_ws (newline_indent lvl @ t) = t"
    using assms(2) by (simp add: skip_ws_newline_indent skip_ws_starts)
  ultimately show ?thesis using assms(1,3) by simp
qed

lemma scan_object_member:
  assumes "scan_once m (encode lvl v @ t) = Some (v, t)"
  shows "scan_object (Suc m) (encode_str k @ '': '' @ encode lvl v @ t) =
         (case skip_ws t of
            [] \<Rightarrow> None
          | d # r3 \<Rightarrow>
              if d = CHR ''}'' then Some ([(k, v)], r3)
              else if d = CHR '','' then
                (case scan_object m (skip_ws r3) of
                   None \<Rightarrow> None
                 | Some (pairs, r5) \<Rightarrow> Some ((k, v) # pairs, r5))
              else None)"
proof -
  obtain body where b: "encode_str k = dquote # body"
    "scan_string (body @ '': '' @ encode lvl v @ t) = Some (k, '': '' @ encode lvl v @ t)"
    using scan_string_encode_str[of k "'': '' @ encode lvl v @ t"] by blast
  have w1: "skip_ws ('': '' @ encode lvl v @ t) = CHR '':'' # CHR '' '' # encode lvl v @ t"
    by (simp add: skip_ws_def is_ws_def)
  have w2: "skip_ws (CHR '' '' # encode lvl v @ t) = encode lvl v @ t"
    using skip_ws_starts[OF encode_starts[of lvl v t]] by (simp add: skip_ws_def is_ws_def)
  show ?thesis
    unfolding b(1) using b(2) w1 w2 assms by (simp del: encode.simps)
qed

lemma roundtrip_mutual:
  "(\<forall>n rest. wf_json v \<longrightarrow> value_end rest \<longrightarrow> length (encode lvl v) \<le> n \<longrightarrow>
       scan_once n (encode lvl v @ rest) = Some (v, rest))"
  "(\<forall>n w rest. xs \<noteq> [] \<longrightarrow> (\<forall>x \<in> set xs. wf_json x) \<longrightarrow> (\<forall>c \<in> set w. is_ws c) \<longrightarrow>
       length (encode_items lvl' xs) < n \<longrightarrow>
       scan_array n (encode_items lvl' xs @ w @ CHR '']'' # rest) = Some (xs, rest))"
  "(\<forall>n w rest. kvs \<noteq> [] \<longrightarrow> (\<forall>kv \<in> set kvs. wf_json (snd kv)) \<longrightarrow> (\<forall>c \<in> set w. is_ws c) \<longrightarrow>
       length (encode_members lvl'' kvs) < n \<longrightarrow>
       scan_object n (encode_members lvl'' kvs @ w @ CHR ''}'' # rest) = Some (kvs, rest))"
proof (induction lvl v and lvl' xs and lvl'' kvs rule: encode_encode_items_encode_members.induct)
  case (1 lvl)
  show ?case
  proof (intro allI impI)
    fix n rest assume "value_end rest" "length (encode lvl PNone) \<le> n"
    then obtain m where "n = Suc m" by (cases n) auto
    then show "scan_once n (encode lvl PNone @ rest) = Some (PNone, rest)"
      using scan_once_atom(1)[OF \<open>value_end rest\<close>] by simp
  qed
next
  case (2 lvl b)
  show ?case
  proof (intro allI impI)
    fix n rest assume "value_end rest" "length (encode lvl (PBool b)) \<le> n"
    then obtain m where "n = Suc m" by (cases n) (auto split: if_splits)
    then show "scan_once n (encode lvl (PBool b) @ rest) = Some (PBool b, rest)"
      using scan_once_atom(2,3)[OF \<open>value_end rest\<close>] by (cases b) simp_all
  qed
next
  case (3 lvl i)
  show ?case
  proof (intro allI impI)
    fix n rest assume "value_end rest" "length (encode lvl (PInt i)) \<le> n"
    with encode_length_pos[of lvl "PInt i"] obtain m where "n = Suc m" by (cases n) auto
    then show "scan_once n (encode lvl (PInt i) @ rest) = Some (PInt i, rest)"
      using scan_once_atom(4)[OF \<open>value_end rest\<close>] by simp
  qed
next
  case (4 lvl s)
  show ?case
  proof (intro allI impI)
    fix n rest assume "value_end rest" "length (encode lvl (PStr s)) \<le> n"
    with encode_length_pos[of lvl "PStr s"] obtain m where "n = Suc m" by (cases n) auto
    then show "scan_once n (encode lvl (PStr s) @ rest) = Some (PStr s, rest)"
      using scan_once_atom(5)[OF \<open>value_end rest\<close>] by simp
  qed
next
  case (5 lvl xs)
  show ?case
  proof (intro allI impI)
    fix n rest assume a: "wf_json (PList xs)" "value_end rest" "length (encode lvl (PList xs)) \<le> n"
    with encode_length_pos[of lvl "PList xs"] obtain m where m: "n = Suc m" by (cases n) auto
    show "scan_once n (encode lvl (PList xs) @ rest) = Some (PList xs, rest)"
    proof (cases "xs = []")
      case True
      then show ?thesis using m by (simp add: dquote_def skip_ws_def is_ws_def)
    next
      case False
      have len: "length (encode_items (Suc lvl) xs) < m"
        using a(3) m False newline_indent_length[of lvl] newline_indent_length[of "Suc lvl"] by simp
      have "scan_array m (encode_items (Suc lvl) xs @ newline_indent lvl @ CHR '']'' # rest) = Some (xs, rest)"
        using 5[OF False] False a(1) newline_indent_ws[of lvl] len by simp
      then show ?thesis unfolding m by (rule scan_once_list[OF False])
    qed
  qed
next
  case (6 lvl kvs)
  show ?case
  proof (intro allI impI)
    fix n rest assume a: "wf_json (PDict kvs)" "value_end rest" "length (encode lvl (PDict kvs)) \<le> n"
    with encode_length_pos[of lvl "PDict kvs"] obtain m where m: "n = Suc m" by (cases n) auto
    show "scan_once n (encode lvl (PDict kvs) @ rest) = Some (PDict kvs, rest)"
    proof (cases "kvs = []")
      case True
      then show ?thesis using m by (simp add: dquote_def skip_ws_def is_ws_def)
    next
      case False
      have len: "length (encode_members (Suc lvl) kvs) < m"
        using a(3) m False newline_indent_length[of lvl] newline_indent_length[of "Suc lvl"] by simp
      have "scan_object m (encode_members (Suc lvl) kvs @ newline_indent lvl @ CHR ''}'' # rest) = Some (kvs, rest)"
        using 6[OF False] False a(1) newline_indent_ws[of lvl] len by simp
      moreover have "distinct (map fst kvs)" using a(1) by simp
      ultimately show ?thesis unfolding m by (intro scan_once_dict[OF False])
    qed
  qed
next
  case (7 lvl)
  show ?case by simp
next
  case (8 lvl x)
  show ?case
  proof (intro allI impI)
    fix n w rest
    assume a: "\<forall>x \<in> set [x]. wf_json x" "\<forall>c \<in> set w. is_ws c" "length (encode_items lvl [x]) < n"
    then obtain m where m: "n = Suc m" by (cases n) auto
    have "scan_once m (encode lvl x @ w @ CHR '']'' # rest) = Some (x, w @ CHR '']'' # rest)"
      using 8 a m value_end_ws[OF a(2), of "CHR '']''" rest] by simp
    then show "scan_array n (encode_items lvl [x] @ w @ CHR '']'' # rest) = Some ([x], rest)"
      unfolding m using a(2) by (rule scan_array_last)
  qed
next
  case (9 lvl x y ys)
  show ?case
  proof (intro allI impI)
    fix n w rest
    assume a: "\<forall>x \<in> set (x # y # ys). wf_json x" "\<forall>c \<in> set w. is_ws c"
      "length (encode_items lvl (x # y # ys)) < n"
    then obtain m where m: "n = Suc m" by (cases n) auto
    let ?t = "encode_items lvl (y # ys) @ w @ CHR '']'' # rest"
    have l1: "length (encode lvl x) \<le> m" using a(3) m by simp
    have l2: "length (encode_items lvl (y # ys)) < m"
      using a(3) m encode_length_pos[of lvl x] by simp
    have s1: "scan_once m (encode lvl x @ CHR '','' # newline_indent lvl @ ?t) = Some (x, CHR '','' # newline_indent lvl @ ?t)"
      using 9(1) a(1) l1 value_end_comma by simp
    have s2: "scan_array m ?t = Some (y # ys, rest)"
      using 9(2) a(1,2) l2 by simp
    have sv: "starts_value ?t" by (rule encode_items_starts) simp
    from scan_array_more[OF s1 sv s2]
    show "scan_array n (encode_items lvl (x # y # ys) @ w @ CHR '']'' # rest) = Some (x # y # ys, rest)"
      unfolding m by simp
  qed
next
  case (10 lvl)
  show ?case by simp
next
  case (11 lvl k v)
  show ?case
  proof (intro allI impI)
    fix n w rest
    assume a: "\<forall>kv \<in> set [(k, v)]. wf_json (snd kv)" "\<forall>c \<in> set w. is_ws c"
      "length (encode_members lvl [(k, v)]) < n"
    then obtain m where m: "n = Suc m" by (cases n) auto
    have l1: "length (encode lvl v) \<le> m" using a(3) m by simp
    have s1: "scan_once m (encode lvl v @ w @ CHR ''}'' # rest) = Some (v, w @ CHR ''}'' # rest)"
      using 11 a(1) l1 value_end_ws[OF a(2), of "CHR ''}''" rest] by simp
    have w: "skip_ws (w @ CHR ''}'' # rest) = CHR ''}'' # rest"
      using a(2) by (intro skip_ws_all) (simp_all add: is_ws_def)
    show "scan_object n (encode_members lvl [(k, v)] @ w @ CHR ''}'' # rest) = Some ([(k, v)], rest)"
      unfolding m using scan_object_member[OF s1, of k] w by simp
  qed
next
  case (12 lvl k v kv kvs)
  show ?case
  proof (intro allI impI)
    fix n w rest
    assume a: "\<forall>kv \<in> set ((k, v) # kv # kvs). wf_json (snd kv)" "\<forall>c \<in> set w. is_ws c"
      "length (encode_members lvl ((k, v) # kv # kvs)) < n"
    then obtain m where m: "n = Suc m" by (cases n) auto
    let ?t = "encode_members lvl (kv # kvs) @ w @ CHR ''}'' # rest"
    have l1: "length (encode lvl v) \<le> m" using a(3) m by simp
    have l2: "length (encode_members lvl (kv # kvs)) < m" using a(3) m by simp
    have s1: "scan_once m (encode lvl v @ CHR '','' # newline_indent lvl @ ?t) = Some (v, CHR '','' # newline_indent lvl @ ?t)"
      using 12(1) a(1) l1 value_end_comma by simp
    have s2: "scan_object m ?t = Some (kv # kvs, rest)"
      using 12(2) a(1,2) l2 by simp
    obtain r where "encode_members lvl (kv # kvs) = dquote # r"
      using encode_members_hd[of "kv # kvs" lvl] by auto
    then have "starts_value ?t" by (simp add: starts_value_def is_ws_def dquote_def)
    then have w2: "skip_ws (newline_indent lvl @ ?t) = ?t"
      by (simp add: skip_ws_newline_indent skip_ws_starts)
    have w1: "skip_ws (CHR '','' # newline_indent lvl @ ?t) = CHR '','' # newline_indent lvl @ ?t"
      by (simp add: skip_ws_def is_ws_def)
    show "scan_object n (encode_members lvl ((k, v) # kv # kvs) @ w @ CHR ''}'' # rest)
            = Some ((k, v) # kv # kvs, rest)"
      unfolding m using scan_object_member[OF s1, of k] w1 w2 s2 by simp
  qed
qed

text \<open>Writing a value and reading the text back gives the value.\<close>

lemma json_roundtrip: "wf_json v \<Longrightarrow> json_loads (json_dump v) = Some v"
proof -
  assume wf: "wf_json v"
  have "value_end []" by (simp add: value_end_def)
  with roundtrip_mutual(1)[of v 0] wf
  have "scan_once (length (encode 0 v)) (encode 0 v @ []) = Some (v, [])" by blast
  moreover have "skip_ws (encode 0 v) = encode 0 v"
    using skip_ws_starts[OF encode_starts[of 0 v "[]"]] by simp
  ultimately show ?thesis
    by (simp add: json_loads_def json_dump_def skip_ws_def)
qed

section \<open>The properties of the specification\<close>

subsection \<open>C1: all pages, in order, one request each\<close>

text \<open>
  C1, as the code has it. Let the remote deliver a non-empty sequence of successful pages,
  every one with a non-empty \<^verbatim>\<open>products\<close> list whose entries all normalize, every one but
  the last with a \<^verbatim>\<open>rel="next"\<close> marker whose piece of the header holds \<^verbatim>\<open>page_info=\<close>, and the
  last without the marker. Then \<^verbatim>\<open>get_all_products\<close> returns the normalized entries of all
  pages, page after page and in the order of each page, sends one request per page, and
  prints nothing.
\<close>

theorem get_all_products_concatenates:
  assumes "rs \<noteq> []" "list_all2 full_page rs pss"
    and "\<forall>r \<in> set (butlast rs). next_has_token r" "\<not> has_next (last rs)"
  shows "result (get_all_products api st rs) = Some (Inr (concat pss)) \<and>
         length (requests (get_all_products api st rs)) = length rs \<and>
         printed (get_all_products api st rs) = []"
proof -
  from assms(1) have rs: "rs = butlast rs @ [last rs]" by simp
  with assms(2) have "list_all2 full_page (butlast rs @ [last rs]) pss" by simp
  then obtain pss' ps where pss: "pss = pss' @ [ps]" "list_all2 full_page (butlast rs) pss'"
    "full_page (last rs) ps" by (rule list_all2_snoc_left)
  let ?v0 = "\<lparr>all_products = [], page_info = PNone, console = []\<rparr>"
  from fetch_loop_prefix[OF pss(2) assms(3), of "[]" api st ?v0 "[last rs]"]
  obtain pi reqs' where p: "length reqs' = length (butlast rs)"
    "fetch_loop api st ?v0 [] (butlast rs @ [last rs]) =
     fetch_loop api st (?v0\<lparr>all_products := all_products ?v0 @ concat pss', page_info := pi\<rparr>) reqs' [last rs]"
    by auto
  have "get_all_products api st rs = fetch_loop api st ?v0 [] (butlast rs @ [last rs])"
    using rs by (simp add: get_all_products_def)
  then show ?thesis
    using p loop_body_break[OF pss(3) assms(4)] pss(1) assms(1)
    by (simp add: length_butlast)
qed

text \<open>
  The example of the specification: two entries and a marker with \<^verbatim>\<open>page_info=abc123\<close>, then
  one entry and no \<^verbatim>\<open>Link\<close> header, give three records in two requests.
\<close>

theorem get_all_products_concatenates_witness:
  "[example_page [example_entry, example_entry] (Some example_link), example_page [example_entry] None] \<noteq> [] \<and>
   list_all2 full_page
     [example_page [example_entry, example_entry] (Some example_link), example_page [example_entry] None]
     [[example_product, example_product], [example_product]] \<and>
   next_has_token (example_page [example_entry, example_entry] (Some example_link)) \<and>
   \<not> has_next (last [example_page [example_entry, example_entry] (Some example_link),
                     example_page [example_entry] None]) \<and>
   result (get_all_products example_api ''active''
     [example_page [example_entry, example_entry] (Some example_link), example_page [example_entry] None])
     = Some (Inr [example_product, example_product, example_product]) \<and>
   length (requests (get_all_products example_api ''active''
     [example_page [example_entry, example_entry] (Some example_link), example_page [example_entry] None])) = 2 \<and>
   printed (get_all_products example_api ''active''
     [example_page [example_entry, example_entry] (Some example_link), example_page [example_entry] None]) = []"
proof -
  let ?rs = "[example_page [example_entry, example_entry] (Some example_link), example_page [example_entry] None]"
  have h1: "?rs \<noteq> []" by simp
  have h2: "list_all2 full_page ?rs [[example_product, example_product], [example_product]]"
    by (simp add: example_full_page)
  have h3: "\<forall>r \<in> set (butlast ?rs). next_has_token r" by (simp add: example_link_token)
  have h4: "\<not> has_next (last ?rs)" by (simp add: example_has_next)
  from get_all_products_concatenates[OF h1 h2 h3 h4, of example_api "''active''"] h1 h2 h3 h4
  show ?thesis by simp
qed

text \<open>
  C1 as stated asks nothing of the pages before the last but the marker. When the first of
  two pages has the marker and no entries, the loop ends there: it returns no record,
  although the second page has one, and it sends one request for two pages.
\<close>

theorem get_all_products_concatenates_counterexample:
  "has_next (example_page [] (Some example_link)) \<and>
   full_page (example_page [example_entry] None) [example_product] \<and>
   \<not> has_next (example_page [example_entry] None) \<and>
   result (get_all_products example_api ''active''
     [example_page [] (Some example_link), example_page [example_entry] None]) = Some (Inr []) \<and>
   length (requests (get_all_products example_api ''active''
     [example_page [] (Some example_link), example_page [example_entry] None])) = 1"
  by (simp add: example_has_next example_full_page)
     (simp add: example_page_def get_all_products_def loop_body_def)

subsection \<open>C2: the continuation token\<close>




text \<open>
  The order of the parameters matters as well. With \<^verbatim>\<open>page_info\<close> before a parameter
  whose value holds a comma, the piece that contains \<^verbatim>\<open>rel="next"\<close> starts after that comma
  and holds no \<^verbatim>\<open>page_info=\<close>: the subscript \<^verbatim>\<open>[1]\<close> raises \<^verbatim>\<open>IndexError\<close>, which nothing
  catches.
\<close>

lemma link_with_comma_raises:
  "spec_continuation_token comma_link = Some ''abc'' \<and>
   result (get_all_products example_api ''active'' [example_page [example_entry] (Some comma_link)])
     = Some (Inl IndexError)"
  by (simp add: spec_continuation_token_def spec_query_param_def spec_directive_url_def
      comma_link_def dquote_def get_all_products_def loop_body_def example_page_def
      example_entry_normalizes rel_next_def link_page_info_def)

subsection \<open>C3: price and quantity of the first variant\<close>

text \<open>
  C3. For an entry with the six required fields: when \<^verbatim>\<open>variants\<close> is a list whose first
  element is an object, \<^verbatim>\<open>price\<close> and \<^verbatim>\<open>inventory_quantity\<close> of the record are the members of
  that name of the first variant, each \<^verbatim>\<open>None\<close> when the variant lacks it, whatever the
  other one is; when \<^verbatim>\<open>variants\<close> is absent or the empty list, both are \<^verbatim>\<open>None\<close>.
\<close>

theorem from_dict_first_variant:
  assumes "map_of kvs ''id'' = Some v1" "map_of kvs ''title'' = Some v2"
    "map_of kvs ''handle'' = Some v3" "map_of kvs ''vendor'' = Some v4"
    "map_of kvs ''product_type'' = Some v5" "map_of kvs ''status'' = Some v6"
  shows "(map_of kvs ''variants'' = Some (PList (PDict fv # vs)) \<longrightarrow>
           from_dict (PDict kvs) =
             Inr \<lparr>id' = v1, title = v2, handle = v3, vendor = v4, product_type = v5, status = v6,
                  price = (case map_of fv ''price'' of None \<Rightarrow> PNone | Some p \<Rightarrow> p),
                  inventory_quantity =
                    (case map_of fv ''inventory_quantity'' of None \<Rightarrow> PNone | Some q \<Rightarrow> q)\<rparr>) \<and>
         (map_of kvs ''variants'' = None \<or> map_of kvs ''variants'' = Some (PList []) \<longrightarrow>
           from_dict (PDict kvs) =
             Inr \<lparr>id' = v1, title = v2, handle = v3, vendor = v4, product_type = v5, status = v6,
                  price = PNone, inventory_quantity = PNone\<rparr>)"
  using assms by (auto simp: from_dict_def first_variant_fields_def)

text \<open>An entry with one variant, and an entry without variants.\<close>

theorem from_dict_first_variant_witness:
  "from_dict example_entry =
     Inr \<lparr>id' = PInt 1, title = PStr ''Mug'', handle = PStr ''mug'', vendor = PStr ''Acme'',
          product_type = PStr ''Kitchen'', status = PStr ''active'', price = PStr ''9.99'',
          inventory_quantity = PInt 4\<rparr> \<and>
   from_dict (PDict ((''id'', PInt 7) # headless_entry)) =
     Inr \<lparr>id' = PInt 7, title = PStr ''Mug'', handle = PStr ''mug'', vendor = PStr ''Acme'',
          product_type = PStr ''Kitchen'', status = PStr ''active'', price = PNone,
          inventory_quantity = PNone\<rparr>"
  using from_dict_first_variant[of
      "[(''id'', PInt 1), (''title'', PStr ''Mug''), (''handle'', PStr ''mug''),
            (''vendor'', PStr ''Acme''), (''product_type'', PStr ''Kitchen''),
            (''status'', PStr ''active''),
            (''variants'', PList [PDict [(''price'', PStr ''9.99''), (''inventory_quantity'', PInt 4)]])]"
      "PInt 1" "PStr ''Mug''" "PStr ''mug''" "PStr ''Acme''" "PStr ''Kitchen''" "PStr ''active''"
      "[(''price'', PStr ''9.99''), (''inventory_quantity'', PInt 4)]" "[]"]
    from_dict_first_variant[of "(''id'', PInt 7) # headless_entry"
      "PInt 7" "PStr ''Mug''" "PStr ''mug''" "PStr ''Acme''" "PStr ''Kitchen''" "PStr ''active''" "[]" "[]"]
  by (simp add: example_entry_def headless_entry_def)

subsection \<open>C4: a malformed record is not swallowed\<close>

text \<open>
  C4. An entry that lacks one of the six required fields does not normalize: \<^verbatim>\<open>from_dict\<close>
  raises, and raises \<^verbatim>\<open>KeyError\<close> for a required field whenever reading the variants raised
  nothing. The client has no class \<^verbatim>\<open>MalformedRecord\<close>; the exception of the code is this
  one. No operation catches it: \<^verbatim>\<open>get_products\<close> and \<^verbatim>\<open>search_products\<close> on a page that
  holds such an entry, and \<^verbatim>\<open>get_all_products\<close> once it reaches such a page, end with an
  exception and not with a list.
\<close>

theorem malformed_record_propagates:
  assumes "k \<in> set required_fields" "map_of kvs k = None"
    and "map_of body ''products'' = Some (PList es)" "PDict kvs \<in> set es"
    and "list_all2 full_page pre pss" "\<forall>r \<in> set pre. next_has_token r"
  shows "(\<exists>e. from_dict (PDict kvs) = Inl e) \<and>
         (\<forall>pq. first_variant_fields (PDict kvs) = Inr pq \<longrightarrow>
            (\<exists>k' \<in> set required_fields. from_dict (PDict kvs) = Inl (KeyError (PStr k')))) \<and>
         (\<exists>e. result (get_products api limit st (Delivered (PDict body) link)) = Inl e) \<and>
         (\<exists>e. result (search_products api query limit (Delivered (PDict body) link)) = Inl e) \<and>
         (\<exists>e. result (get_all_products api st (pre @ Delivered (PDict body) link # post)) = Some (Inl e))"
proof -
  from from_dict_missing[OF assms(1,2)] obtain e where e: "from_dict (PDict kvs) = Inl e" by blast
  from from_dict_all_raises[OF assms(4) e] obtain e' where e': "from_dict_all es = Inl e'" by blast
  have pp: "parse_products (PDict body) = Inl e'"
    using assms(3) e' by (simp add: parse_products_def)
  let ?v0 = "\<lparr>all_products = [], page_info = PNone, console = []\<rparr>"
  from fetch_loop_prefix[OF assms(5,6), of "[]" api st ?v0 "Delivered (PDict body) link # post"]
  obtain pi reqs' where p:
    "fetch_loop api st ?v0 [] (pre @ Delivered (PDict body) link # post) =
     fetch_loop api st (?v0\<lparr>all_products := all_products ?v0 @ concat pss, page_info := pi\<rparr>) reqs'
       (Delivered (PDict body) link # post)"
    by auto
  from loop_body_raises[OF assms(3,4) e] obtain e'' where
    "loop_body (Delivered (PDict body) link) (?v0\<lparr>all_products := all_products ?v0 @ concat pss, page_info := pi\<rparr>) = Inl e''"
    by blast
  with p have "result (get_all_products api st (pre @ Delivered (PDict body) link # post)) = Some (Inl e'')"
    by (simp add: get_all_products_def)
  then show ?thesis
    using e pp from_dict_missing_KeyError[OF assms(1,2)]
    by (auto simp: get_products_def search_products_def)
qed

text \<open>An entry without \<^verbatim>\<open>id\<close> on the second page.\<close>

theorem malformed_record_propagates_witness:
  "''id'' \<in> set required_fields \<and> map_of headless_entry ''id'' = None \<and>
   from_dict (PDict headless_entry) = Inl (KeyError (PStr ''id'')) \<and>
   (\<exists>e. result (get_products example_api 50 ''active''
        (example_page [example_entry, PDict headless_entry] None)) = Inl e) \<and>
   (\<exists>e. result (search_products example_api ''mug'' 50
        (example_page [example_entry, PDict headless_entry] None)) = Inl e) \<and>
   (\<exists>e. result (get_all_products example_api ''active''
        ([example_page [example_entry] (Some example_link)]
          @ example_page [example_entry, PDict headless_entry] None # [])) = Some (Inl e))"
proof -
  have h1: "''id'' \<in> set required_fields" by (simp add: required_fields_def)
  have h2: "map_of headless_entry ''id'' = None" by (simp add: headless_entry_def)
  have h3: "map_of [(''products'', PList [example_entry, PDict headless_entry])] ''products''
              = Some (PList [example_entry, PDict headless_entry])" by simp
  have h4: "PDict headless_entry \<in> set [example_entry, PDict headless_entry]" by simp
  have h5: "list_all2 full_page [example_page [example_entry] (Some example_link)] [[example_product]]"
    by (simp add: example_full_page)
  have h6: "\<forall>r \<in> set [example_page [example_entry] (Some example_link)]. next_has_token r"
    by (simp add: example_link_token)
  have k: "from_dict (PDict headless_entry) = Inl (KeyError (PStr ''id''))"
    by (simp add: from_dict_def first_variant_fields_def headless_entry_def)
  from malformed_record_propagates[OF h1 h2 h3 h4 h5 h6, of example_api 50 "''active''" None "''mug''" "[]"]
    h1 h2 k
  show ?thesis unfolding example_page_def by simp
qed

subsection \<open>C5: a failure keeps the pages before it\<close>

text \<open>
  C5. When the request after \<open>k - 1\<close> pages that let the loop go on fails, the operation
  prints the failure once, sends no further request although more responses stand ready
  (\<open>post\<close>), and returns the records of those \<open>k - 1\<close> pages: a value, not an exception.
  With no page before the failure that is the empty list.
\<close>

theorem get_all_products_failure_partial:
  assumes "list_all2 full_page pre pss" "\<forall>r \<in> set pre. next_has_token r"
  shows "result (get_all_products api st (pre @ Failed msg # post)) = Some (Inr (concat pss)) \<and>
         length (requests (get_all_products api st (pre @ Failed msg # post))) = length pre + 1 \<and>
         printed (get_all_products api st (pre @ Failed msg # post)) = [''Error fetching products: '' @ msg]"
proof -
  let ?v0 = "\<lparr>all_products = [], page_info = PNone, console = []\<rparr>"
  from fetch_loop_prefix[OF assms, of "[]" api st ?v0 "Failed msg # post"]
  obtain pi reqs' where p: "length reqs' = length pre"
    "fetch_loop api st ?v0 [] (pre @ Failed msg # post) =
     fetch_loop api st (?v0\<lparr>all_products := all_products ?v0 @ concat pss, page_info := pi\<rparr>) reqs' (Failed msg # post)"
    by auto
  show ?thesis
    using p by (simp add: get_all_products_def loop_body_failed)
qed

text \<open>
  A failure on the second request leaves the two records of the first page; a failure on
  the first request leaves the empty list. In both runs a further page stood ready.
\<close>

theorem get_all_products_failure_partial_witness:
  "list_all2 full_page [example_page [example_entry, example_entry] (Some example_link)]
     [[example_product, example_product]] \<and>
   next_has_token (example_page [example_entry, example_entry] (Some example_link)) \<and>
   result (get_all_products example_api ''active''
     ([example_page [example_entry, example_entry] (Some example_link)]
       @ Failed ''503 Server Error'' # [example_page [example_entry] None]))
     = Some (Inr [example_product, example_product]) \<and>
   length (requests (get_all_products example_api ''active''
     ([example_page [example_entry, example_entry] (Some example_link)]
       @ Failed ''503 Server Error'' # [example_page [example_entry] None]))) = 2 \<and>
   printed (get_all_products example_api ''active''
     ([example_page [example_entry, example_entry] (Some example_link)]
       @ Failed ''503 Server Error'' # [example_page [example_entry] None]))
     = [''Error fetching products: 503 Server Error''] \<and>
   result (get_all_products example_api ''active''
     ([] @ Failed ''timed out'' # [example_page [example_entry] None])) = Some (Inr []) \<and>
   length (requests (get_all_products example_api ''active''
     ([] @ Failed ''timed out'' # [example_page [example_entry] None]))) = 1"
proof -
  have h1: "list_all2 full_page [example_page [example_entry, example_entry] (Some example_link)]
     [[example_product, example_product]]" by (simp add: example_full_page)
  have h2: "\<forall>r \<in> set [example_page [example_entry, example_entry] (Some example_link)]. next_has_token r"
    by (simp add: example_link_token)
  have h3: "list_all2 full_page [] []" by simp
  have h4: "\<forall>r \<in> set ([] :: response list). next_has_token r" by simp
  from get_all_products_failure_partial[OF h1 h2, of example_api "''active''" "''503 Server Error''"
      "[example_page [example_entry] None]"]
    get_all_products_failure_partial[OF h3 h4, of example_api "''active''" "''timed out''"
      "[example_page [example_entry] None]"] h1 h2
  show ?thesis by simp
qed

subsection \<open>C6: one request, and the empty list on failure\<close>

text \<open>
  C6. \<^verbatim>\<open>get_products\<close> and \<^verbatim>\<open>search_products\<close> send exactly one request whatever the
  response; when it fails they print the failure and return the empty list.
\<close>

theorem single_request_failure_policy:
  "length (requests (get_products api limit st resp)) = 1 \<and>
   length (requests (search_products api query limit resp)) = 1 \<and>
   result (get_products api limit st (Failed msg)) = Inr [] \<and>
   printed (get_products api limit st (Failed msg)) = [''Error fetching products: '' @ msg] \<and>
   result (search_products api query limit (Failed msg)) = Inr [] \<and>
   printed (search_products api query limit (Failed msg)) = [''Error searching products: '' @ msg]"
  by (cases resp) (simp_all add: get_products_def search_products_def)

text \<open>A timeout on either operation.\<close>

theorem single_request_failure_policy_witness:
  "length (requests (get_products example_api 50 ''active'' (Failed ''timeout''))) = 1 \<and>
   length (requests (search_products example_api ''mug'' 50 (Failed ''timeout''))) = 1 \<and>
   result (get_products example_api 50 ''active'' (Failed ''timeout'')) = Inr [] \<and>
   printed (get_products example_api 50 ''active'' (Failed ''timeout'')) = [''Error fetching products: timeout''] \<and>
   result (search_products example_api ''mug'' 50 (Failed ''timeout'')) = Inr [] \<and>
   printed (search_products example_api ''mug'' 50 (Failed ''timeout'')) = [''Error searching products: timeout'']"
  using single_request_failure_policy[of example_api 50 "''active''" "Failed ''timeout''" "''mug''" "''timeout''"]
  by simp

subsection \<open>C7: the loop ends\<close>

text \<open>
  C7. Let a failed request, a page without entries, or a successful response without
  the marker stand anywhere in what the remote delivers. Then the loop comes to an end
  (the result is not \<open>None\<close>), and it has sent no request beyond that response, whatever
  the responses before it and after it are.
\<close>

theorem get_all_products_terminates:
  assumes "ends_pagination r"
  shows "result (get_all_products api st (pre @ r # post)) \<noteq> None \<and>
         length (requests (get_all_products api st (pre @ r # post))) \<le> length pre + 1"
  using fetch_loop_ends[OF assms, of api st _ "[]" pre post]
  by (simp add: get_all_products_def)

text \<open>An empty page that carries a marker ends the loop at the second request.\<close>

theorem get_all_products_terminates_witness:
  "ends_pagination (example_page [] (Some example_link)) \<and>
   result (get_all_products example_api ''active''
     ([example_page [example_entry] (Some example_link)]
       @ example_page [] (Some example_link) # [example_page [example_entry] None])) \<noteq> None \<and>
   length (requests (get_all_products example_api ''active''
     ([example_page [example_entry] (Some example_link)]
       @ example_page [] (Some example_link) # [example_page [example_entry] None])))
     \<le> length [example_page [example_entry] (Some example_link)] + 1"
proof -
  have h: "ends_pagination (example_page [] (Some example_link))"
    by (simp add: ends_pagination_def empty_page_def example_page_def)
  from get_all_products_terminates[OF h, of example_api "''active''"
      "[example_page [example_entry] (Some example_link)]" "[example_page [example_entry] None]"] h
  show ?thesis by simp
qed

subsection \<open>C8: export and read back\<close>

text \<open>
  C8. Exporting \<open>N\<close> records to a file and parsing the text of that file gives a list of
  \<open>N\<close> objects in the order of the records, each with the keys \<^verbatim>\<open>id\<close>, \<^verbatim>\<open>title\<close>,
  \<^verbatim>\<open>handle\<close>, \<^verbatim>\<open>vendor\<close>, \<^verbatim>\<open>product_type\<close>, \<^verbatim>\<open>status\<close>, \<^verbatim>\<open>price\<close>, \<^verbatim>\<open>inventory_quantity\<close> in
  this order and the record's fields as their values; a field that is \<^verbatim>\<open>None\<close> is written
  \<^verbatim>\<open>null\<close> and read as \<^verbatim>\<open>None\<close>.
\<close>

theorem export_to_json_roundtrip:
  assumes "\<forall>p \<in> set products. wf_product p"
  shows "reparse (fst (export_to_json products filename files)) filename =
           Some (PList (map (\<lambda>p. PDict [(''id'', id' p), (''title'', title p), (''handle'', handle p),
                                          (''vendor'', vendor p), (''product_type'', product_type p),
                                          (''status'', status p), (''price'', price p),
                                          (''inventory_quantity'', inventory_quantity p)])
                            products)) \<and>
         snd (export_to_json products filename files) = [CHR 0x0A # ''Products exported to '' @ filename]"
proof -
  let ?d = "\<lambda>p. PDict [(''id'', id' p), (''title'', title p), (''handle'', handle p),
                      (''vendor'', vendor p), (''product_type'', product_type p),
                      (''status'', status p), (''price'', price p),
                      (''inventory_quantity'', inventory_quantity p)]"
  have "wf_json (?d p)" if "wf_product p" for p
    using that by (simp add: wf_product_def)
  with assms have "wf_json (PList (map ?d products))" by simp
  then have "json_loads (json_dump (PList (map ?d products))) = Some (PList (map ?d products))"
    by (rule json_roundtrip)
  then show ?thesis
    by (simp add: export_to_json_def reparse_def)
qed

text \<open>Two records, the second with neither price nor quantity.\<close>

theorem export_to_json_roundtrip_witness:
  "wf_product example_product \<and> wf_product unpriced_product \<and>
   reparse (fst (export_to_json [example_product, unpriced_product] ''out.json'' Map.empty)) ''out.json'' =
     Some (PList
       [PDict [(''id'', PInt 1), (''title'', PStr ''Mug''), (''handle'', PStr ''mug''),
               (''vendor'', PStr ''Acme''), (''product_type'', PStr ''Kitchen''),
               (''status'', PStr ''active''), (''price'', PStr ''9.99''),
               (''inventory_quantity'', PInt 4)],
        PDict [(''id'', PInt 7), (''title'', PStr ''Cup''), (''handle'', PStr ''cup''),
               (''vendor'', PStr ''Acme''), (''product_type'', PStr ''Kitchen''),
               (''status'', PStr ''draft''), (''price'', PNone),
               (''inventory_quantity'', PNone)]])"
proof -
  have w: "wf_product example_product" "wf_product unpriced_product"
    by (simp_all add: wf_product_def example_product_def unpriced_product_def)
  then have "\<forall>p \<in> set [example_product, unpriced_product]. wf_product p" by simp
  from export_to_json_roundtrip[OF this, of "''out.json''" Map.empty] w
  show ?thesis by (simp add: example_product_def unpriced_product_def)
qed

subsection \<open>C9: the limit parameter\<close>

text \<open>
  C9. The one request of \<^verbatim>\<open>get_products\<close> and of \<^verbatim>\<open>search_products\<close> carries
  \<^verbatim>\<open>limit\<close> = \<open>min limit 250\<close>, which is at most 250; every request of \<^verbatim>\<open>get_all_products\<close>
  carries \<^verbatim>\<open>limit\<close> = 250.
\<close>

theorem limit_at_most_250:
  "map limit_of (requests (get_products api limit st resp)) = [Some (PInt (min limit 250))] \<and>
   map limit_of (requests (search_products api query limit resp)) = [Some (PInt (min limit 250))] \<and>
   min limit 250 \<le> (250::int) \<and>
   map limit_of (requests (get_all_products api st rs)) =
     replicate (length (requests (get_all_products api st rs))) (Some (PInt 250))"
proof -
  have "\<forall>q \<in> set (requests (get_all_products api st rs)). limit_of q = Some (PInt 250)"
    unfolding get_all_products_def by (rule fetch_loop_limits) simp
  then have "map limit_of (requests (get_all_products api st rs)) =
     replicate (length (requests (get_all_products api st rs))) (Some (PInt 250))"
    by (simp add: map_replicate_const[symmetric] cong: map_cong)
  then show ?thesis
    by (cases resp) (simp_all add: get_products_def search_products_def limit_of_def)
qed

text \<open>The limits 50 and 1000, and a run of two requests.\<close>

theorem limit_at_most_250_witness:
  "map limit_of (requests (get_products example_api 50 ''active'' (Failed ''timeout''))) = [Some (PInt 50)] \<and>
   map limit_of (requests (search_products example_api ''mug'' 1000 (Failed ''timeout''))) = [Some (PInt 250)] \<and>
   map limit_of (requests (get_all_products example_api ''active''
        [example_page [example_entry] (Some example_link), example_page [example_entry] None]))
     = [Some (PInt 250), Some (PInt 250)]"
proof -
  have n: "length (requests (get_all_products example_api ''active''
        [example_page [example_entry] (Some example_link), example_page [example_entry] None])) = 2"
    by (simp add: example_page_def get_all_products_def loop_body_def example_entry_normalizes
        example_link_def rel_next_def dquote_def link_page_info_def)
  from limit_at_most_250[of example_api 50 "''active''" "Failed ''timeout''" "''mug''"
      "[example_page [example_entry] (Some example_link), example_page [example_entry] None]"]
    limit_at_most_250[of example_api 1000 "''active''" "Failed ''timeout''" "''mug''" "[]"] n
  show ?thesis by (simp add: numeral_2_eq_2)
qed

subsection \<open>C10: a body without products\<close>

text \<open>
  C10, as the code has it. On a successful response whose body is an object without a
  \<^verbatim>\<open>products\<close> member, \<^verbatim>\<open>get_products\<close> and \<^verbatim>\<open>search_products\<close> return the empty list and
  print nothing. On such a response, and on one whose \<^verbatim>\<open>products\<close> is \<^verbatim>\<open>null\<close>,
  \<^verbatim>\<open>get_all_products\<close> ends its loop and returns what the pages before gave.
\<close>

theorem missing_products_is_empty_page:
  assumes "list_all2 full_page pre pss" "\<forall>r \<in> set pre. next_has_token r"
  shows "(map_of body ''products'' = None \<longrightarrow>
            result (get_products api limit st (Delivered (PDict body) link)) = Inr [] \<and>
            printed (get_products api limit st (Delivered (PDict body) link)) = [] \<and>
            result (search_products api query limit (Delivered (PDict body) link)) = Inr [] \<and>
            printed (search_products api query limit (Delivered (PDict body) link)) = []) \<and>
         (map_of body ''products'' = None \<or> map_of body ''products'' = Some PNone \<longrightarrow>
            result (get_all_products api st (pre @ Delivered (PDict body) link # post)) = Some (Inr (concat pss)) \<and>
            length (requests (get_all_products api st (pre @ Delivered (PDict body) link # post))) = length pre + 1 \<and>
            printed (get_all_products api st (pre @ Delivered (PDict body) link # post)) = [])"
proof -
  let ?v0 = "\<lparr>all_products = [], page_info = PNone, console = []\<rparr>"
  from fetch_loop_prefix[OF assms, of "[]" api st ?v0 "Delivered (PDict body) link # post"]
  obtain pi reqs' where p: "length reqs' = length pre"
    "fetch_loop api st ?v0 [] (pre @ Delivered (PDict body) link # post) =
     fetch_loop api st (?v0\<lparr>all_products := all_products ?v0 @ concat pss, page_info := pi\<rparr>) reqs'
       (Delivered (PDict body) link # post)"
    by auto
  have b: "map_of body ''products'' = None \<or> map_of body ''products'' = Some PNone \<Longrightarrow>
     loop_body (Delivered (PDict body) link) vars = Inr (Break, vars)" for vars
    by (auto simp: loop_body_def)
  show ?thesis
    using p b
    by (auto simp: get_all_products_def get_products_def search_products_def parse_products_def)
qed

text \<open>A body with only an \<^verbatim>\<open>errors\<close> member, and a body with \<^verbatim>\<open>products\<close> = \<^verbatim>\<open>null\<close>.\<close>

theorem missing_products_is_empty_page_witness:
  "list_all2 full_page [example_page [example_entry] (Some example_link)] [[example_product]] \<and>
   next_has_token (example_page [example_entry] (Some example_link)) \<and>
   map_of [(''errors'', PStr ''none'')] ''products'' = None \<and>
   result (get_products example_api 50 ''active'' (Delivered (PDict [(''errors'', PStr ''none'')]) None)) = Inr [] \<and>
   result (search_products example_api ''mug'' 50 (Delivered (PDict [(''errors'', PStr ''none'')]) None)) = Inr [] \<and>
   result (get_all_products example_api ''active''
     ([example_page [example_entry] (Some example_link)]
       @ Delivered (PDict [(''errors'', PStr ''none'')]) None # [])) = Some (Inr [example_product]) \<and>
   map_of [(''products'', PNone)] ''products'' = Some PNone \<and>
   result (get_all_products example_api ''active''
     ([example_page [example_entry] (Some example_link)]
       @ Delivered (PDict [(''products'', PNone)]) None # [])) = Some (Inr [example_product])"
proof -
  have h1: "list_all2 full_page [example_page [example_entry] (Some example_link)] [[example_product]]"
    by (simp add: example_full_page)
  have h2: "\<forall>r \<in> set [example_page [example_entry] (Some example_link)]. next_has_token r"
    by (simp add: example_link_token)
  from missing_products_is_empty_page[OF h1 h2, of "[(''errors'', PStr ''none'')]" example_api 50 "''active''"
      None "''mug''" "[]"]
    missing_products_is_empty_page[OF h1 h2, of "[(''products'', PNone)]" example_api 50 "''active''"
      None "''mug''" "[]"] h1 h2
  show ?thesis by simp
qed

text \<open>
  C10 as stated has the two single-request operations return the empty list when
  \<^verbatim>\<open>products\<close> is \<^verbatim>\<open>null\<close>. The default of \<^verbatim>\<open>data.get('products', [])\<close> stands in for a
  missing member only: \<^verbatim>\<open>null\<close> comes back as \<^verbatim>\<open>None\<close>, the comprehension cannot iterate
  it, and the \<^verbatim>\<open>TypeError\<close> is not caught.
\<close>

theorem missing_products_is_empty_page_counterexample:
  "map_of [(''products'', PNone)] ''products'' = Some PNone \<and>
   result (get_products example_api 50 ''active'' (Delivered (PDict [(''products'', PNone)]) None))
     = Inl TypeError \<and>
   result (search_products example_api ''mug'' 50 (Delivered (PDict [(''products'', PNone)]) None))
     = Inl TypeError"
  by (simp add: get_products_def search_products_def parse_products_def)

end
